theory Spec2Isabelle
  imports Main
begin

section \<open>Values, maps and the store\<close>

text \<open>
  The logger tree of the Go package is a graph of heap objects: a \<open>*Logger\<close> points to its
  parent, and a \<open>map[string]interface{}\<close> is a reference that several variables may share.
  The model keeps both kinds of object in an explicit store and passes addresses, so that
  sharing (or its absence) is something the theorems establish.

  A field value is an \<open>interface{}\<close>. The code only moves such values around and hands them
  to the caller's transforms, so a small datatype of immutable values stands for them.
\<close>

datatype gval = GNil | GBool bool | GInt int | GStr string

text \<open>The contents of one Go map with string keys.\<close>

type_synonym fields = "string \<rightharpoonup> gval"

type_synonym maddr = nat

type_synonym laddr = nat

text \<open>A variable of map type: \<open>None\<close> is the nil map, \<open>Some a\<close> the map stored at \<open>a\<close>.\<close>

type_synonym mapref = "maddr option"

text \<open>
  The argument of \<open>WithSerializers\<close>, a \<open>map[string]func(interface{}) interface{}\<close>: the
  pairs in the order the \<open>range\<close> loop visits them. The transforms are the caller's
  functions, taken as pure.
\<close>

type_synonym transforms = "(string \<times> (gval \<Rightarrow> gval)) list"

text \<open>
  The only function values the package itself stores in \<open>Serializer\<close> are the closures
  built by \<open>WithSerializers\<close>; such a closure is represented by the table it captured.
\<close>

datatype serializer = Composite transforms

text \<open>\<open>json.NewEncoder(os.Stdout)\<close> is the only writer the package installs.\<close>

datatype writer = StdoutEncoder

record Logger =
  Level :: string
  Writer :: writer
  Parent :: "laddr option"
  Children :: "laddr list"
  EventFields :: mapref
  Serializer :: "serializer option"

text \<open>
  \<open>LogEntry\<close>, with the type of \<open>Fields\<close> left open: a map reference inside the program,
  the map's contents (\<open>None\<close> for a nil map, which JSON renders as null) once encoded.
  \<open>EntryLevel\<close> is the struct's \<open>Level\<close>.
\<close>

record 'f LogEntry =
  Timestamp :: string
  Message :: string
  EntryLevel :: string
  Fields :: 'f

text \<open>What reaches standard output: an encoded entry, or a line of \<open>fmt.Println\<close>.\<close>

datatype out_line = Encoded "fields option LogEntry" | Printed string

record state =
  loggers :: "laddr \<Rightarrow> Logger"
  next_logger :: nat
  maps :: "maddr \<Rightarrow> fields"
  next_map :: nat
  stdout :: "out_line list"

text \<open>
  What a call of \<open>Log\<close> takes from outside the program: the formatted time of
  \<open>time.Now()\<close>, and the error (if any) that \<open>Encode\<close> returns for an entry.
\<close>

record env =
  now :: string
  encode_error :: "fields option LogEntry \<Rightarrow> string option"

datatype panic = InterfaceConversion | NilMapAssignment

datatype 'a outcome = Returned 'a | Panicked panic

text \<open>The dynamic types of the values \<open>Log\<close> passes to a serializer.\<close>

datatype dyn = DString string | DMap mapref

definition init :: state where
  "init = \<lparr>loggers = (\<lambda>_. \<lparr>Level = [], Writer = StdoutEncoder, Parent = None, Children = [],
                               EventFields = None, Serializer = None\<rparr>),
           next_logger = 0, maps = (\<lambda>_. Map.empty), next_map = 0, stdout = []\<rparr>"

text \<open>\<open>make(map[string]interface{})\<close>\<close>

definition make_map :: "state \<Rightarrow> maddr \<times> state" where
  "make_map s =
     (next_map s, s\<lparr>maps := (maps s)(next_map s := Map.empty), next_map := Suc (next_map s)\<rparr>)"

text \<open>What \<open>range m\<close> and \<open>m[key]\<close> see: a nil map reads as empty.\<close>

definition range_fields :: "state \<Rightarrow> mapref \<Rightarrow> fields" where
  "range_fields s m = (case m of None \<Rightarrow> Map.empty | Some a \<Rightarrow> maps s a)"

text \<open>
  \<open>for key, val := range src { dst[key] = val }\<close>. Keys are distinct, so the loop's result
  does not depend on the order of iteration: it is \<open>dst\<close> overlaid with \<open>src\<close>. Assigning
  into a nil map panics, which takes at least one iteration.
\<close>

definition copy_into :: "state \<Rightarrow> mapref \<Rightarrow> mapref \<Rightarrow> unit outcome \<times> state" where
  "copy_into s dst src =
     (case dst of
        Some d \<Rightarrow> (Returned (), s\<lparr>maps := (maps s)(d := maps s d ++ range_fields s src)\<rparr>)
      | None \<Rightarrow> if range_fields s src = Map.empty then (Returned (), s)
                else (Panicked NilMapAssignment, s))"

definition update_logger :: "laddr \<Rightarrow> (Logger \<Rightarrow> Logger) \<Rightarrow> state \<Rightarrow> state" where
  "update_logger l f s = s\<lparr>loggers := (loggers s)(l := f (loggers s l))\<rparr>"

section \<open>The level filter\<close>

definition levels :: "string \<rightharpoonup> int" where
  "levels = [''fatal'' \<mapsto> 5, ''error'' \<mapsto> 4, ''warn'' \<mapsto> 3, ''info'' \<mapsto> 2, ''debug'' \<mapsto> 1]"

text \<open>Indexing a Go map with a missing key yields the zero value.\<close>

definition index0 :: "(string \<rightharpoonup> int) \<Rightarrow> string \<Rightarrow> int" where
  "index0 m k = (case m k of None \<Rightarrow> 0 | Some v \<Rightarrow> v)"

definition isEnabled :: "state \<Rightarrow> laddr \<Rightarrow> string \<Rightarrow> bool" where
  "isEnabled s l level = (index0 levels level \<ge> index0 levels (Level (loggers s l)))"

section \<open>Merging fields\<close>

text \<open>The two loops at the end of \<open>mergeFields\<close>, and its return.\<close>

definition merge_own :: "state \<Rightarrow> laddr \<Rightarrow> mapref \<Rightarrow> mapref \<Rightarrow> mapref outcome \<times> state" where
  "merge_own s l flds mergedFields =
     (case copy_into s mergedFields (EventFields (loggers s l)) of
        (Panicked e, s1) \<Rightarrow> (Panicked e, s1)
      | (Returned _, s1) \<Rightarrow>
          (case copy_into s1 mergedFields flds of
             (Panicked e, s2) \<Rightarrow> (Panicked e, s2)
           | (Returned _, s2) \<Rightarrow> (Returned mergedFields, s2)))"

text \<open>What follows the recursive call: the parent's result replaces \<open>mergedFields\<close>.\<close>

definition after_parent ::
  "laddr \<Rightarrow> mapref \<Rightarrow> mapref outcome \<times> state \<Rightarrow> mapref outcome \<times> state" where
  "after_parent l flds r =
     (case r of
        (Panicked e, s1) \<Rightarrow> (Panicked e, s1)
      | (Returned m, s1) \<Rightarrow> merge_own s1 l flds m)"

text \<open>
  \<open>mergeFields\<close> follows parent pointers, and nothing in the type \<open>*Logger\<close> keeps them from
  forming a cycle; a call that never returns has the value \<open>None\<close>.
\<close>

partial_function (option) mergeFields ::
  "state \<Rightarrow> laddr \<Rightarrow> mapref \<Rightarrow> (mapref outcome \<times> state) option" where
  "mergeFields s l flds =
     (case Parent (loggers (snd (make_map s)) l) of
        None \<Rightarrow> Some (merge_own (snd (make_map s)) l flds (Some (fst (make_map s))))
      | Some p \<Rightarrow>
          Option.bind
            (mergeFields (snd (make_map s)) p (EventFields (loggers (snd (make_map s)) p)))
            (\<lambda>r. Some (after_parent l flds r)))"

section \<open>Serializers\<close>

text \<open>
  The body of the closure of \<open>WithSerializers\<close>. Each iteration asserts that \<open>data\<close> is a
  map; the assertion has the one-result form, which panics on any other dynamic type.
\<close>

fun apply_transforms :: "transforms \<Rightarrow> dyn \<Rightarrow> state \<Rightarrow> unit outcome \<times> state" where
  "apply_transforms [] data s = (Returned (), s)"
| "apply_transforms ((key, f) # rest) data s =
     (case data of
        DString _ \<Rightarrow> (Panicked InterfaceConversion, s)
      | DMap m \<Rightarrow>
          (case range_fields s m key of
             None \<Rightarrow> apply_transforms rest data s
           | Some val \<Rightarrow>
               (case m of
                  None \<Rightarrow> (Panicked NilMapAssignment, s)
                | Some a \<Rightarrow>
                    apply_transforms rest data
                      (s\<lparr>maps := (maps s)(a := (maps s a)(key \<mapsto> f val))\<rparr>))))"

definition call_serializer :: "serializer \<Rightarrow> dyn \<Rightarrow> state \<Rightarrow> dyn outcome \<times> state" where
  "call_serializer f data s =
     (case f of
        Composite serializers \<Rightarrow>
          (case apply_transforms serializers data s of
             (Panicked e, s1) \<Rightarrow> (Panicked e, s1)
           | (Returned _, s1) \<Rightarrow> (Returned data, s1)))"

definition serializeEntry ::
  "state \<Rightarrow> laddr \<Rightarrow> mapref LogEntry \<Rightarrow> mapref LogEntry outcome \<times> state" where
  "serializeEntry s l entry =
     (case Serializer (loggers s l) of
        None \<Rightarrow> (Returned entry, s)
      | Some f \<Rightarrow>
          (case call_serializer f (DString (Message entry)) s of
             (Panicked e, s1) \<Rightarrow> (Panicked e, s1)
           | (Returned (DMap _), s1) \<Rightarrow> (Panicked InterfaceConversion, s1)
           | (Returned (DString msg), s1) \<Rightarrow>
               (case call_serializer f (DMap (Fields entry)) s1 of
                  (Panicked e, s2) \<Rightarrow> (Panicked e, s2)
                | (Returned (DString _), s2) \<Rightarrow> (Panicked InterfaceConversion, s2)
                | (Returned (DMap m), s2) \<Rightarrow>
                    (Returned (entry\<lparr>Message := msg, Fields := m\<rparr>), s2))))"

section \<open>Creating loggers\<close>

definition GenerateLogger :: "state \<Rightarrow> laddr \<times> state" where
  "GenerateLogger s =
     (let (a, s1) = make_map s
      in (next_logger s1,
          s1\<lparr>loggers := (loggers s1)(next_logger s1 :=
                 \<lparr>Level = ''info'', Writer = StdoutEncoder, Parent = None, Children = [],
                  EventFields = Some a, Serializer = None\<rparr>),
             next_logger := Suc (next_logger s1)\<rparr>))"

definition Child :: "state \<Rightarrow> laddr \<Rightarrow> mapref \<Rightarrow> (laddr outcome \<times> state) option" where
  "Child s l flds =
     (let (child, s1) = GenerateLogger s;
          s2 = update_logger child (\<lambda>c. c\<lparr>Level := Level (loggers s1 l)\<rparr>) s1;
          s3 = update_logger child (\<lambda>c. c\<lparr>Parent := Some l\<rparr>) s2
      in Option.bind (mergeFields s3 l flds)
           (\<lambda>r. case r of
                   (Panicked e, s4) \<Rightarrow> Some (Panicked e, s4)
                 | (Returned m, s4) \<Rightarrow>
                     let s5 = update_logger child (\<lambda>c. c\<lparr>EventFields := m\<rparr>) s4;
                         s6 = update_logger l (\<lambda>p. p\<lparr>Children := Children p @ [child]\<rparr>) s5
                     in Some (Returned child, s6)))"

definition WithFields :: "state \<Rightarrow> laddr \<Rightarrow> mapref \<Rightarrow> (laddr outcome \<times> state) option" where
  "WithFields s l flds =
     Option.bind (Child s l flds)
       (\<lambda>r. case r of
               (Panicked e, s1) \<Rightarrow> Some (Panicked e, s1)
             | (Returned child, s1) \<Rightarrow>
                 Some (Returned child,
                       update_logger child (\<lambda>c. c\<lparr>Serializer := Serializer (loggers s1 l)\<rparr>) s1))"

definition WithSerializers ::
  "state \<Rightarrow> laddr \<Rightarrow> transforms \<Rightarrow> (laddr outcome \<times> state) option" where
  "WithSerializers s l serializers =
     Option.bind (Child s l None)
       (\<lambda>r. case r of
               (Panicked e, s1) \<Rightarrow> Some (Panicked e, s1)
             | (Returned child, s1) \<Rightarrow>
                 Some (Returned child,
                       update_logger child
                         (\<lambda>c. c\<lparr>Serializer := Some (Composite serializers)\<rparr>) s1))"

section \<open>Logging\<close>

text \<open>
  \<open>l.Writer.Encode(entry)\<close>: the encoder renders the entry with the contents its map has
  at that moment. On success the line is on standard output.
\<close>

definition Encode :: "env \<Rightarrow> writer \<Rightarrow> mapref LogEntry \<Rightarrow> state \<Rightarrow> string option \<times> state" where
  "Encode e w entry s =
     (let wire = \<lparr>Timestamp = Timestamp entry, Message = Message entry,
                  EntryLevel = EntryLevel entry,
                  Fields = (case Fields entry of None \<Rightarrow> None | Some a \<Rightarrow> Some (maps s a))\<rparr>
      in case w of
           StdoutEncoder \<Rightarrow>
             (case encode_error e wire of
                None \<Rightarrow> (None, s\<lparr>stdout := stdout s @ [Encoded wire]\<rparr>)
              | Some err \<Rightarrow> (Some err, s)))"

definition Log ::
  "env \<Rightarrow> state \<Rightarrow> laddr \<Rightarrow> string \<Rightarrow> string \<Rightarrow> mapref \<Rightarrow> (unit outcome \<times> state) option" where
  "Log e s l level message flds =
     (if isEnabled s l level then
        Option.bind (mergeFields s l flds)
          (\<lambda>r. case r of
                  (Panicked p, s1) \<Rightarrow> Some (Panicked p, s1)
                | (Returned m, s1) \<Rightarrow>
                    let entry = \<lparr>Timestamp = now e, Message = message, EntryLevel = level,
                                 Fields = m\<rparr>
                    in (case (if Serializer (loggers s1 l) \<noteq> None then serializeEntry s1 l entry
                              else (Returned entry, s1)) of
                          (Panicked p, s2) \<Rightarrow> Some (Panicked p, s2)
                        | (Returned entry', s2) \<Rightarrow>
                            (case Encode e (Writer (loggers s2 l)) entry' s2 of
                               (Some err, s3) \<Rightarrow>
                                 Some (Returned (),
                                       s3\<lparr>stdout := stdout s3 @
                                            [Printed (''Error encoding log entry: '' @ err)]\<rparr>)
                             | (None, s3) \<Rightarrow> Some (Returned (), s3))))
      else Some (Returned (), s))"

section \<open>Programs over the package\<close>

text \<open>
  A client program, as far as the package sees it, is a sequence of calls: it creates
  roots, builds maps to pass as arguments, derives loggers and logs. Receivers and
  arguments are objects that exist (\<open>step\<close> yields \<open>None\<close> otherwise: Go has no dangling
  reference). A panic is kept with the state it leaves behind, as a recovering caller
  would see it.
\<close>

datatype call =
    NewRoot
  | NewMap fields
  | CallChild laddr mapref
  | CallWithFields laddr mapref
  | CallWithSerializers laddr transforms
  | CallLog env laddr string string mapref

definition ref_ok :: "state \<Rightarrow> mapref \<Rightarrow> bool" where
  "ref_ok s m = (case m of None \<Rightarrow> True | Some a \<Rightarrow> a < next_map s)"

definition new_map :: "fields \<Rightarrow> state \<Rightarrow> state" where
  "new_map m s = s\<lparr>maps := (maps s)(next_map s := m), next_map := Suc (next_map s)\<rparr>"

fun step :: "state \<Rightarrow> call \<Rightarrow> state option" where
  "step s NewRoot = Some (snd (GenerateLogger s))"
| "step s (NewMap m) = Some (new_map m s)"
| "step s (CallChild l flds) =
     (if l < next_logger s \<and> ref_ok s flds then map_option snd (Child s l flds) else None)"
| "step s (CallWithFields l flds) =
     (if l < next_logger s \<and> ref_ok s flds then map_option snd (WithFields s l flds) else None)"
| "step s (CallWithSerializers l serializers) =
     (if l < next_logger s then map_option snd (WithSerializers s l serializers) else None)"
| "step s (CallLog e l level message flds) =
     (if l < next_logger s \<and> ref_ok s flds then map_option snd (Log e s l level message flds)
      else None)"

fun run :: "call list \<Rightarrow> state \<Rightarrow> state option" where
  "run [] s = Some s"
| "run (c # cs) s = Option.bind (step s c) (run cs)"

section \<open>The ancestor chain, as the specification words it\<close>

text \<open>
  \<open>ancestor_chain lg l ls\<close>: \<open>ls\<close> lists the ancestors of \<open>l\<close> root first, ending with \<open>l\<close>
  itself. \<open>deep_union s ls\<close> overlays the event fields of the nodes of \<open>ls\<close> in that order, a
  later node overriding an earlier one key by key.
\<close>

inductive ancestor_chain :: "(laddr \<Rightarrow> Logger) \<Rightarrow> laddr \<Rightarrow> laddr list \<Rightarrow> bool" where
  chain_root: "Parent (lg l) = None \<Longrightarrow> ancestor_chain lg l [l]"
| chain_child: "Parent (lg l) = Some p \<Longrightarrow> ancestor_chain lg p ls \<Longrightarrow> ancestor_chain lg l (ls @ [l])"

definition deep_union :: "state \<Rightarrow> laddr list \<Rightarrow> fields" where
  "deep_union s ls =
     foldl (\<lambda>m k. m ++ range_fields s (EventFields (loggers s k))) Map.empty ls"

section \<open>Invariants of the store\<close>

text \<open>
  \<open>tree_ok\<close>: every logger's event fields are an allocated map, and a parent was created
  before its child. \<open>frozen_ok\<close>: a child's event fields already contain its parent's.
  \<open>grows s s'\<close>: \<open>s'\<close> is \<open>s\<close> with more maps allocated, and nothing else changed.
\<close>

definition tree_ok :: "state \<Rightarrow> bool" where
  "tree_ok s =
     (\<forall>l<next_logger s.
        (\<exists>a<next_map s. EventFields (loggers s l) = Some a) \<and>
        (\<forall>p. Parent (loggers s l) = Some p \<longrightarrow> p < l))"

definition frozen_ok :: "state \<Rightarrow> bool" where
  "frozen_ok s =
     (\<forall>l<next_logger s. \<forall>p. Parent (loggers s l) = Some p \<longrightarrow>
        range_fields s (EventFields (loggers s p)) ++ range_fields s (EventFields (loggers s l))
          = range_fields s (EventFields (loggers s l)))"

definition grows :: "state \<Rightarrow> state \<Rightarrow> bool" where
  "grows s s' =
     (loggers s' = loggers s \<and> next_logger s' = next_logger s \<and> stdout s' = stdout s \<and>
      next_map s \<le> next_map s' \<and> (\<forall>a<next_map s. maps s' a = maps s a))"

section \<open>Notions used in the statements and proofs\<close>

text \<open>The five level names of the severity table.\<close>

definition known_levels :: "string set" where
  "known_levels = {''debug'', ''info'', ''warn'', ''error'', ''fatal''}"

text \<open>The overlay of the call-site fields on the node's own event fields, with no walk.\<close>

definition simple_overlay :: "state \<Rightarrow> laddr \<Rightarrow> mapref \<Rightarrow> fields" where
  "simple_overlay s l flds =
     range_fields s (EventFields (loggers s l)) ++ range_fields s flds"

text \<open>The entry a call of \<open>Log\<close> hands to the encoder when its merged fields are \<open>m\<close>.\<close>

definition entry_of :: "env \<Rightarrow> string \<Rightarrow> string \<Rightarrow> fields \<Rightarrow> fields option LogEntry" where
  "entry_of e level message m =
     \<lparr>Timestamp = now e, Message = message, EntryLevel = level, Fields = Some m\<rparr>"

text \<open>What the encoding step appends to standard output for an entry.\<close>

definition encode_line :: "env \<Rightarrow> fields option LogEntry \<Rightarrow> out_line" where
  "encode_line e w =
     (case encode_error e w of
        None \<Rightarrow> Encoded w
      | Some err \<Rightarrow> Printed (''Error encoding log entry: '' @ err))"

text \<open>\<open>panics_on_message z\<close>: \<open>z\<close> is a closure of \<open>WithSerializers\<close> over a non-empty table.\<close>

definition panics_on_message :: "serializer option \<Rightarrow> bool" where
  "panics_on_message z = (case z of None \<Rightarrow> False | Some (Composite tbl) \<Rightarrow> tbl \<noteq> [])"

text \<open>\<open>keeps s s'\<close>: every logger and every map of \<open>s\<close> is in \<open>s'\<close>, unchanged.\<close>

definition keeps :: "state \<Rightarrow> state \<Rightarrow> bool" where
  "keeps s s' =
     (loggers s' = loggers s \<and> next_logger s' = next_logger s \<and>
      next_map s \<le> next_map s' \<and> (\<forall>a<next_map s. maps s' a = maps s a))"

text \<open>
  \<open>persists s s'\<close>: every logger of \<open>s\<close> is a logger of \<open>s'\<close> with the same level, parent,
  serializer and event fields (its list of children may have grown), and every map of
  \<open>s\<close> is in \<open>s'\<close> with the same contents.
\<close>

definition persists :: "state \<Rightarrow> state \<Rightarrow> bool" where
  "persists s s' =
     (next_logger s \<le> next_logger s' \<and> next_map s \<le> next_map s' \<and>
      (\<forall>k<next_logger s.
         EventFields (loggers s' k) = EventFields (loggers s k) \<and>
         Parent (loggers s' k) = Parent (loggers s k) \<and>
         Level (loggers s' k) = Level (loggers s k) \<and>
         Serializer (loggers s' k) = Serializer (loggers s k)) \<and>
      (\<forall>a<next_map s. maps s' a = maps s a))"

text \<open>The two invariants together.\<close>

definition store_ok :: "state \<Rightarrow> bool" where
  "store_ok s = (tree_ok s \<and> frozen_ok s)"

text \<open>
  The state in which \<open>Child\<close> calls \<open>mergeFields\<close>: the new logger is allocated, with its
  level and parent set.
\<close>

definition child_pre :: "state \<Rightarrow> laddr \<Rightarrow> state" where
  "child_pre s l =
     update_logger (next_logger s) (\<lambda>c. c\<lparr>Parent := Some l\<rparr>)
       (update_logger (next_logger s) (\<lambda>c. c\<lparr>Level := Level (loggers s l)\<rparr>)
          (snd (GenerateLogger s)))"

text \<open>
  \<open>derived s l ls f z s'\<close>: \<open>s'\<close> is \<open>s\<close> with one more logger, a child of \<open>l\<close> with the level of
  \<open>l\<close> and the serializer \<open>z\<close>, appended to the children of \<open>l\<close>; its event fields are a map
  allocated since \<open>s\<close>, holding the union along \<open>ls\<close> overlaid with the fields \<open>f\<close>.
\<close>

definition derived ::
  "state \<Rightarrow> laddr \<Rightarrow> laddr list \<Rightarrow> mapref \<Rightarrow> serializer option \<Rightarrow> state \<Rightarrow> bool" where
  "derived s l ls f z s' =
     (\<exists>a. loggers s' = (loggers s)
        (next_logger s := \<lparr>Level = Level (loggers s l), Writer = StdoutEncoder, Parent = Some l,
                             Children = [], EventFields = Some a, Serializer = z\<rparr>,
         l := (loggers s l)\<lparr>Children := Children (loggers s l) @ [next_logger s]\<rparr>) \<and>
       next_logger s' = Suc (next_logger s) \<and> stdout s' = stdout s \<and>
       next_map s \<le> a \<and> a < next_map s' \<and>
       (\<forall>b<next_map s. maps s' b = maps s b) \<and>
       maps s' a = deep_union s ls ++ range_fields s f)"

section \<open>Example programs\<close>

text \<open>A root logger, as \<open>GenerateLogger\<close> leaves it in the empty store.\<close>

definition root_state :: state where
  "root_state = snd (GenerateLogger init)"

text \<open>An environment whose encoder accepts every entry.\<close>

definition quiet_env :: env where
  "quiet_env = \<lparr>now = ''2024-01-01T00:00:00Z'', encode_error = (\<lambda>_. None)\<rparr>"

text \<open>An environment whose encoder rejects every entry.\<close>

definition failing_env :: env where
  "failing_env = \<lparr>now = ''2024-01-01T00:00:00Z'', encode_error = (\<lambda>_. Some ''write failed'')\<rparr>"

text \<open>
  A root (logger 0), a parent made with the fields p=1 (logger 1), and two children of the
  parent: one made with x=1 (logger 2), one made with y=2 (logger 3).
\<close>

definition family_script :: "call list" where
  "family_script =
     [NewRoot,
      NewMap [''p'' \<mapsto> GInt 1], CallChild 0 (Some 1),
      NewMap [''x'' \<mapsto> GInt 1], CallChild 1 (Some 4),
      NewMap [''y'' \<mapsto> GInt 2], CallChild 1 (Some 8)]"

definition family_state :: state where
  "family_state = (case run family_script init of Some s \<Rightarrow> s | None \<Rightarrow> init)"

text \<open>A transform that hides a value, as a caller would pass to \<open>WithSerializers\<close>.\<close>

definition redact :: "gval \<Rightarrow> gval" where
  "redact v = GStr ''***''"

text \<open>A root and a logger derived from it with \<open>WithSerializers\<close> over one key.\<close>

definition masked_script :: "call list" where
  "masked_script = [NewRoot, CallWithSerializers 0 [(''secret'', redact)]]"

definition masked_state :: state where
  "masked_state = (case run masked_script init of Some s \<Rightarrow> s | None \<Rightarrow> init)"

text \<open>Calls made after \<open>masked_script\<close>: derive from the serializing logger, and log.\<close>

definition later_script :: "call list" where
  "later_script =
     [NewMap [''secret'' \<mapsto> GStr ''abc'', ''other'' \<mapsto> GStr ''x''],
      CallWithFields 1 (Some 3),
      CallChild 1 (Some 3),
      CallLog quiet_env 0 ''info'' ''started'' (Some 3),
      CallLog quiet_env 2 ''info'' ''login'' (Some 3),
      CallLog quiet_env 3 ''warn'' ''retry'' None]"

definition later_state :: state where
  "later_state =
     (case run (masked_script @ later_script) init of Some s \<Rightarrow> s | None \<Rightarrow> init)"

text \<open>
  A root, a logger derived from it with \<open>WithSerializers\<close> over the key \<open>secret\<close>, and a map
  of call-site fields.
\<close>

definition secret_script :: "(gval \<Rightarrow> gval) \<Rightarrow> call list" where
  "secret_script f =
     [NewRoot, CallWithSerializers 0 [(''secret'', f)],
      NewMap [''secret'' \<mapsto> GStr ''abc'', ''other'' \<mapsto> GStr ''x'']]"

definition secret_state :: "(gval \<Rightarrow> gval) \<Rightarrow> state" where
  "secret_state f = (case run (secret_script f) init of Some s \<Rightarrow> s | None \<Rightarrow> init)"

section \<open>The level filter: properties\<close>

lemma index0_levels_known:
  "index0 levels ''debug'' = 1" "index0 levels ''info'' = 2" "index0 levels ''warn'' = 3"
  "index0 levels ''error'' = 4" "index0 levels ''fatal'' = 5"
  by (simp_all add: index0_def levels_def)

lemma index0_levels_unknown:
  "level \<notin> {''debug'', ''info'', ''warn'', ''error'', ''fatal''} \<Longrightarrow> index0 levels level = 0"
  by (simp add: index0_def levels_def)

lemma mem_known_levels:
  "level \<in> known_levels \<longleftrightarrow>
     level = ''debug'' \<or> level = ''info'' \<or> level = ''warn'' \<or> level = ''error'' \<or> level = ''fatal''"
  by (auto simp: known_levels_def)

lemma index0_known_pos: "level \<in> known_levels \<Longrightarrow> 1 \<le> index0 levels level"
  by (auto simp: mem_known_levels index0_levels_known)

lemma index0_unknown_zero: "level \<notin> known_levels \<Longrightarrow> index0 levels level = 0"
  by (simp add: known_levels_def index0_levels_unknown)

lemma root_state_simps:
  "next_logger root_state = 1" "next_map root_state = 1"
  "Level (loggers root_state 0) = ''info''" "Serializer (loggers root_state 0) = None"
  "Parent (loggers root_state 0) = None" "EventFields (loggers root_state 0) = Some 0"
  "stdout root_state = []"
  by (simp_all add: root_state_def GenerateLogger_def make_map_def init_def)

text \<open>
  C4. An unknown level name has severity 0. A call at an unrecognised level is not enabled
  on a logger configured with one of the five known names (and \<open>Log\<close> then does nothing);
  a logger configured with an unrecognised name is enabled for each known level.
\<close>

theorem unknown_levels_severity_zero:
  "(level \<notin> known_levels \<longrightarrow> index0 levels level = 0) \<and>
   (level \<notin> known_levels \<and> Level (loggers s l) \<in> known_levels \<longrightarrow>
      \<not> isEnabled s l level \<and> Log e s l level message flds = Some (Returned (), s)) \<and>
   (Level (loggers s l) \<notin> known_levels \<and> level \<in> known_levels \<longrightarrow> isEnabled s l level)"
proof (intro conjI impI)
  assume "level \<notin> known_levels"
  then show "index0 levels level = 0" by (rule index0_unknown_zero)
next
  assume a: "level \<notin> known_levels \<and> Level (loggers s l) \<in> known_levels"
  then have "index0 levels level = 0" and "1 \<le> index0 levels (Level (loggers s l))"
    by (simp_all add: index0_unknown_zero index0_known_pos)
  then show d: "\<not> isEnabled s l level" by (simp add: isEnabled_def)
  then show "Log e s l level message flds = Some (Returned (), s)" by (simp add: Log_def)
next
  assume "Level (loggers s l) \<notin> known_levels \<and> level \<in> known_levels"
  then have "index0 levels (Level (loggers s l)) = 0" and "1 \<le> index0 levels level"
    by (simp_all add: index0_unknown_zero index0_known_pos)
  then show "isEnabled s l level" by (simp add: isEnabled_def)
qed

theorem unknown_levels_severity_zero_witness:
  "''trace'' \<notin> known_levels \<and> Level (loggers root_state 0) \<in> known_levels \<and>
   index0 levels ''trace'' = 0 \<and> \<not> isEnabled root_state 0 ''trace'' \<and>
   Log quiet_env root_state 0 ''trace'' ''m'' None = Some (Returned (), root_state) \<and>
   Level (loggers (update_logger 0 (\<lambda>c. c\<lparr>Level := ''verbose''\<rparr>) root_state) 0) \<notin> known_levels \<and>
   ''debug'' \<in> known_levels \<and>
   isEnabled (update_logger 0 (\<lambda>c. c\<lparr>Level := ''verbose''\<rparr>) root_state) 0 ''debug''"
proof -
  have h1: "''trace'' \<notin> known_levels" "Level (loggers root_state 0) \<in> known_levels"
    by (simp_all add: known_levels_def root_state_simps)
  have h2: "Level (loggers (update_logger 0 (\<lambda>c. c\<lparr>Level := ''verbose''\<rparr>) root_state) 0)
              \<notin> known_levels" "''debug'' \<in> known_levels"
    by (simp_all add: known_levels_def update_logger_def)
  show ?thesis
    using h1 h2
      unknown_levels_severity_zero[of "''trace''" root_state 0 quiet_env "''m''" None]
      unknown_levels_severity_zero[of "''debug''"
        "update_logger 0 (\<lambda>c. c\<lparr>Level := ''verbose''\<rparr>) root_state" 0 quiet_env "''m''" None]
    by blast
qed

text \<open>
  C7. A call of \<open>Log\<close> at a level that is not enabled returns at once and leaves the whole
  state as it was: no logger, no map and no line of output changes.
\<close>

theorem log_disabled_is_noop:
  "\<not> isEnabled s l level \<Longrightarrow> Log e s l level message flds = Some (Returned (), s)"
  by (simp add: Log_def)

theorem log_disabled_is_noop_witness:
  "\<not> isEnabled root_state 0 ''debug'' \<and>
   Log quiet_env root_state 0 ''debug'' ''m'' None = Some (Returned (), root_state)"
proof -
  have h: "\<not> isEnabled root_state 0 ''debug''"
    by (simp add: isEnabled_def root_state_simps index0_levels_known)
  show ?thesis
    using h log_disabled_is_noop[OF h, of quiet_env "''m''" None] by simp
qed

section \<open>mergeFields along the ancestor chain\<close>

lemma grows_refl: "grows s s"
  by (simp add: grows_def)

lemma grows_trans: "grows s s1 \<Longrightarrow> grows s1 s2 \<Longrightarrow> grows s s2"
  by (auto simp: grows_def)

lemma grows_make_map: "grows s (snd (make_map s))"
  by (simp add: grows_def make_map_def)

lemma make_map_simps:
  "fst (make_map s) = next_map s"
  "next_map (snd (make_map s)) = Suc (next_map s)"
  "loggers (snd (make_map s)) = loggers s"
  "maps (snd (make_map s)) (next_map s) = Map.empty"
  by (simp_all add: make_map_def)

lemma ancestor_chain_last: "ancestor_chain lg l ls \<Longrightarrow> ls \<noteq> [] \<and> last ls = l"
  by (induction rule: ancestor_chain.induct) simp_all

lemma ancestor_chain_unique:
  "ancestor_chain lg l ls \<Longrightarrow> ancestor_chain lg l ls' \<Longrightarrow> ls = ls'"
proof (induction arbitrary: ls' rule: ancestor_chain.induct)
  case (chain_root lg l)
  from chain_root.prems show ?case
  proof (cases rule: ancestor_chain.cases)
    case chain_root
    then show ?thesis by simp
  next
    case (chain_child p ks)
    with chain_root.hyps show ?thesis by simp
  qed
next
  case (chain_child lg l p ls)
  from chain_child.prems show ?case
  proof (cases rule: ancestor_chain.cases)
    case chain_root
    with chain_child.hyps(1) show ?thesis by simp
  next
    case (chain_child q ks)
    with chain_child.hyps(1) have "ancestor_chain lg p ks" by simp
    then have "ls = ks" by (rule chain_child.IH)
    with chain_child(1) show ?thesis by simp
  qed
qed

lemma ancestor_chain_cong:
  "ancestor_chain lg l ls \<Longrightarrow> \<forall>k\<in>set ls. lg' k = lg k \<Longrightarrow> ancestor_chain lg' l ls"
proof (induction rule: ancestor_chain.induct)
  case (chain_root lg l)
  then have "Parent (lg' l) = None" by simp
  then show ?case by (rule ancestor_chain.chain_root)
next
  case (chain_child lg l p ls)
  have "Parent (lg' l) = Some p" using chain_child.hyps(1) chain_child.prems by simp
  moreover have "ancestor_chain lg' p ls" using chain_child.IH chain_child.prems by simp
  ultimately show ?case by (rule ancestor_chain.chain_child)
qed

lemma deep_union_snoc:
  "deep_union s (ls @ [l]) = deep_union s ls ++ range_fields s (EventFields (loggers s l))"
  by (simp add: deep_union_def)

lemma deep_union_single:
  "deep_union s [l] = range_fields s (EventFields (loggers s l))"
  by (simp add: deep_union_def)

lemma range_fields_grows:
  "grows s s' \<Longrightarrow> ref_ok s m \<Longrightarrow> range_fields s' m = range_fields s m"
  by (auto simp: grows_def ref_ok_def range_fields_def split: option.splits)

lemma deep_union_grows:
  assumes "grows s s'" and "\<forall>k\<in>set ls. ref_ok s (EventFields (loggers s k))"
  shows "deep_union s' ls = deep_union s ls"
  using assms(2)
proof (induction ls rule: rev_induct)
  case Nil
  show ?case by (simp add: deep_union_def)
next
  case (snoc k ks)
  have "loggers s' = loggers s" using assms(1) by (simp add: grows_def)
  with snoc show ?case
    by (simp add: deep_union_snoc range_fields_grows[OF assms(1)])
qed

lemma map_add_twice: "m ++ e ++ e = m ++ e"
  by (simp add: fun_eq_iff map_add_def split: option.splits)

lemma map_add_self: "(e :: 'a \<rightharpoonup> 'b) ++ e = e"
  by (simp add: fun_eq_iff map_add_def split: option.splits)

lemma deep_union_last_idem:
  "ls \<noteq> [] \<Longrightarrow>
     deep_union s ls ++ range_fields s (EventFields (loggers s (last ls))) = deep_union s ls"
  by (cases ls rule: rev_cases) (simp_all add: deep_union_snoc map_add_twice)

lemma merge_own_fresh:
  assumes "EventFields (loggers s l) \<noteq> Some a" "f \<noteq> Some a"
  shows "merge_own s l f (Some a) =
           (Returned (Some a),
            s\<lparr>maps := (maps s)(a := maps s a ++ range_fields s (EventFields (loggers s l))
                                     ++ range_fields s f)\<rparr>)"
  using assms
  by (auto simp: merge_own_def copy_into_def range_fields_def split: option.splits)

lemma ref_ok_neq: "ref_ok s m \<Longrightarrow> next_map s \<le> a \<Longrightarrow> m \<noteq> Some a"
  by (auto simp: ref_ok_def)

lemma mergeFields_chain_aux:
  assumes "ancestor_chain lg l ls"
  shows "loggers s = lg \<Longrightarrow> \<forall>k\<in>set ls. ref_ok s (EventFields (loggers s k)) \<Longrightarrow> ref_ok s f \<Longrightarrow>
         \<exists>a s'. mergeFields s l f = Some (Returned (Some a), s') \<and> next_map s \<le> a \<and>
                a < next_map s' \<and> grows s s' \<and>
                maps s' a = deep_union s ls ++ range_fields s f"
  using assms
proof (induction arbitrary: s f rule: ancestor_chain.induct)
  case (chain_root lg l)
  let ?s0 = "snd (make_map s)"
  let ?a = "next_map s"
  have g0: "grows s ?s0" by (rule grows_make_map)
  have okl: "ref_ok s (EventFields (loggers s l))" "ref_ok s f"
    using chain_root.prems by simp_all
  have ok: "ref_ok ?s0 (EventFields (loggers ?s0 l))" "ref_ok ?s0 f"
    using okl by (auto simp: ref_ok_def make_map_def split: option.splits)
  define s' where "s' = ?s0\<lparr>maps := (maps ?s0)(?a := maps ?s0 ?a ++
      range_fields ?s0 (EventFields (loggers ?s0 l)) ++ range_fields ?s0 f)\<rparr>"
  have m: "merge_own ?s0 l f (Some ?a) = (Returned (Some ?a), s')"
    unfolding s'_def
    by (rule merge_own_fresh) (simp_all add: make_map_simps ref_ok_neq[OF okl(1)] ref_ok_neq[OF okl(2)])
  have e: "mergeFields s l f = Some (Returned (Some ?a), s')"
    using chain_root.hyps chain_root.prems(1) m
    by (subst mergeFields.simps) (simp add: make_map_simps)
  have g: "grows s s'"
    by (auto simp: s'_def grows_def make_map_def)
  have v: "maps s' ?a = deep_union s [l] ++ range_fields s f"
    using okl
    by (simp add: s'_def make_map_simps deep_union_single range_fields_grows[OF g0])
  have n: "?a < next_map s'" by (simp add: s'_def make_map_simps)
  show ?case using e g v n by auto
next
  case (chain_child lg l p ls)
  let ?s0 = "snd (make_map s)"
  have g0: "grows s ?s0" by (rule grows_make_map)
  have lg0: "loggers ?s0 = lg" using chain_child.prems(1) by (simp add: make_map_simps)
  have okall: "\<forall>k\<in>set (ls @ [l]). ref_ok ?s0 (EventFields (loggers ?s0 k))"
    using chain_child.prems(2) by (auto simp: ref_ok_def make_map_def split: option.splits)
  then have okls: "\<forall>k\<in>set ls. ref_ok ?s0 (EventFields (loggers ?s0 k))" by simp
  have lastp: "ls \<noteq> []" "last ls = p"
    using ancestor_chain_last[OF chain_child.hyps(2)] by simp_all
  then have pin: "p \<in> set ls" using last_in_set by metis
  have okp: "ref_ok ?s0 (EventFields (loggers ?s0 p))" using okls pin by simp
  from chain_child.IH[OF lg0 okls okp]
  obtain a s1 where r: "mergeFields ?s0 p (EventFields (loggers ?s0 p)) = Some (Returned (Some a), s1)"
    and b: "next_map ?s0 \<le> a" "a < next_map s1" and g1: "grows ?s0 s1"
    and v1: "maps s1 a = deep_union ?s0 ls ++ range_fields ?s0 (EventFields (loggers ?s0 p))"
    by auto
  have g01: "grows s s1" using g0 g1 by (rule grows_trans)
  have lg1: "loggers s1 = loggers s" using g01 by (simp add: grows_def)
  have okl: "ref_ok s (EventFields (loggers s l))" "ref_ok s f"
    using chain_child.prems by simp_all
  have oks: "\<forall>k\<in>set ls. ref_ok s (EventFields (loggers s k))"
    using chain_child.prems(2) by simp
  have v1': "maps s1 a = deep_union s ls"
    using v1 lastp deep_union_last_idem[of ls ?s0] deep_union_grows[OF g0 oks] by simp
  have na: "next_map s \<le> a" using b by (simp add: make_map_simps)
  define s' where "s' = s1\<lparr>maps := (maps s1)(a := maps s1 a ++
      range_fields s1 (EventFields (loggers s1 l)) ++ range_fields s1 f)\<rparr>"
  have m: "merge_own s1 l f (Some a) = (Returned (Some a), s')"
    unfolding s'_def
    by (rule merge_own_fresh) (simp_all add: lg1 ref_ok_neq[OF okl(1) na] ref_ok_neq[OF okl(2) na])
  have e: "mergeFields s l f = Some (Returned (Some a), s')"
    using chain_child.hyps(1) chain_child.prems(1) r m
    by (subst mergeFields.simps) (simp add: make_map_simps after_parent_def)
  have g: "grows s s'"
    using g01 na by (auto simp: s'_def grows_def)
  have v: "maps s' a = deep_union s (ls @ [l]) ++ range_fields s f"
    using okl
    by (simp add: s'_def v1' lg1 deep_union_snoc range_fields_grows[OF g01])
  have n: "a < next_map s'" using b by (simp add: s'_def)
  show ?case using e g v n na by auto
qed

lemma mergeFields_chain:
  assumes "ancestor_chain (loggers s) l ls"
    and "\<forall>k\<in>set ls. ref_ok s (EventFields (loggers s k))" and "ref_ok s f"
  shows "\<exists>a s'. mergeFields s l f = Some (Returned (Some a), s') \<and> next_map s \<le> a \<and>
                a < next_map s' \<and> grows s s' \<and>
                maps s' a = deep_union s ls ++ range_fields s f"
  by (rule mergeFields_chain_aux[where lg = "loggers s" and s = s, OF assms(1) _ assms(2,3)]) simp

lemma merge_own_some:
  "merge_own s l f (Some a) = (r, s') \<Longrightarrow> r = Returned (Some a)"
  by (auto simp: merge_own_def copy_into_def split: prod.splits outcome.splits)

lemma mergeFields_never_nil:
  assumes "mergeFields s l f = Some y"
  shows "\<exists>a. fst y = Returned (Some a)"
proof (rule mergeFields.raw_induct[where P = "\<lambda>s l f y. \<exists>a. fst y = Returned (Some a)",
        OF _ assms], goal_cases)
  case (1 mf s l f y)
  show ?case
  proof (cases "Parent (loggers (snd (make_map s)) l)")
    case None
    with 1(2) show ?thesis
      by (cases "merge_own (snd (make_map s)) l f (Some (fst (make_map s)))")
         (auto dest: merge_own_some)
  next
    case (Some p)
    with 1(2) obtain r where r: "mf (snd (make_map s)) p (EventFields (loggers (snd (make_map s)) p)) = Some r"
      and y: "y = after_parent l f r"
      by (auto simp: bind_eq_Some_conv)
    from 1(1)[OF r] obtain a where a: "fst r = Returned (Some a)" by blast
    then show ?thesis
      using y by (cases r; cases "merge_own (snd r) l f (Some a)")
                 (auto simp: after_parent_def dest: merge_own_some)
  qed
qed

lemma tree_ok_ref:
  "tree_ok s \<Longrightarrow> l < next_logger s \<Longrightarrow> ref_ok s (EventFields (loggers s l))"
  by (auto simp: tree_ok_def ref_ok_def)

lemma tree_ok_chain:
  assumes "tree_ok s"
  shows "l < next_logger s \<Longrightarrow> \<exists>ls. ancestor_chain (loggers s) l ls \<and> (\<forall>k\<in>set ls. k \<le> l)"
proof (induction l rule: less_induct)
  case (less l)
  show ?case
  proof (cases "Parent (loggers s l)")
    case None
    then have "ancestor_chain (loggers s) l [l]" by (rule chain_root)
    moreover have "\<forall>k\<in>set [l]. k \<le> l" by simp
    ultimately show ?thesis by (rule_tac x = "[l]" in exI) simp
  next
    case (Some p)
    have pl: "p < l" using assms less.prems Some by (simp add: tree_ok_def)
    then have "p < next_logger s" using less.prems by simp
    from less.IH[OF pl this]
    obtain ls where c: "ancestor_chain (loggers s) p ls" and b: "\<forall>k\<in>set ls. k \<le> p"
      by blast
    have "ancestor_chain (loggers s) l (ls @ [l])" using Some c by (rule chain_child)
    moreover have "\<forall>k\<in>set (ls @ [l]). k \<le> l" using b pl by auto
    ultimately show ?thesis by blast
  qed
qed

lemma frozen_deep_union:
  assumes "frozen_ok s" "tree_ok s"
  shows "ancestor_chain lg l ls \<Longrightarrow> lg = loggers s \<Longrightarrow> l < next_logger s \<Longrightarrow>
         deep_union s ls = range_fields s (EventFields (loggers s l))"
proof (induction rule: ancestor_chain.induct)
  case (chain_root lg l)
  show ?case by (simp add: deep_union_single)
next
  case (chain_child lg l p ls)
  have pl: "p < l" using assms(2) chain_child by (auto simp: tree_ok_def)
  then have "deep_union s ls = range_fields s (EventFields (loggers s p))"
    using chain_child by simp
  moreover have "range_fields s (EventFields (loggers s p)) ++ range_fields s (EventFields (loggers s l))
      = range_fields s (EventFields (loggers s l))"
    using assms(1) chain_child by (auto simp: frozen_ok_def)
  ultimately show ?case by (simp add: deep_union_snoc)
qed

section \<open>Deriving a logger\<close>

lemma child_pre_simps:
  "l < next_logger s \<Longrightarrow> loggers (child_pre s l) = (loggers s)(next_logger s :=
          \<lparr>Level = Level (loggers s l), Writer = StdoutEncoder, Parent = Some l, Children = [],
           EventFields = Some (next_map s), Serializer = None\<rparr>)"
  "next_logger (child_pre s l) = Suc (next_logger s)"
  "next_map (child_pre s l) = Suc (next_map s)"
  "maps (child_pre s l) = (maps s)(next_map s := Map.empty)"
  "stdout (child_pre s l) = stdout s"
  by (simp_all add: child_pre_def GenerateLogger_def make_map_def update_logger_def)

lemma Child_unfold:
  "l < next_logger s \<Longrightarrow> Child s l f =
     Option.bind (mergeFields (child_pre s l) l f)
       (\<lambda>r. case r of
               (Panicked e, s4) \<Rightarrow> Some (Panicked e, s4)
             | (Returned m, s4) \<Rightarrow>
                 Some (Returned (next_logger s),
                   update_logger l (\<lambda>p. p\<lparr>Children := Children p @ [next_logger s]\<rparr>)
                     (update_logger (next_logger s) (\<lambda>c. c\<lparr>EventFields := m\<rparr>) s4)))"
  unfolding Child_def child_pre_def Let_def
  by (simp add: GenerateLogger_def make_map_def update_logger_def split: prod.splits cong: Option.bind_cong)

lemma Child_result:
  assumes t: "tree_ok s" and l: "l < next_logger s" and f: "ref_ok s f"
  shows "\<exists>s' ls. Child s l f = Some (Returned (next_logger s), s') \<and>
     ancestor_chain (loggers s) l ls \<and> derived s l ls f None s'"
proof -
  let ?c = "next_logger s"
  let ?s3 = "child_pre s l"
  from tree_ok_chain[OF t l] obtain ls
    where ch: "ancestor_chain (loggers s) l ls" and le: "\<forall>k\<in>set ls. k \<le> l" by blast
  have same: "\<forall>k\<in>set ls. loggers ?s3 k = loggers s k"
    using le l by (auto simp: child_pre_simps)
  have ch3: "ancestor_chain (loggers ?s3) l ls"
    using ch same by (rule ancestor_chain_cong)
  have g3: "\<forall>b<next_map s. maps ?s3 b = maps s b" "next_map ?s3 = Suc (next_map s)"
    by (simp_all add: child_pre_simps)
  have ok: "\<forall>k\<in>set ls. ref_ok s (EventFields (loggers s k))"
  proof
    fix k assume "k \<in> set ls"
    then have "k < next_logger s" using le l by fastforce
    then show "ref_ok s (EventFields (loggers s k))" by (rule tree_ok_ref[OF t])
  qed
  have ok3: "\<forall>k\<in>set ls. ref_ok ?s3 (EventFields (loggers ?s3 k))"
    using ok same g3 by (auto simp: ref_ok_def split: option.splits)
  have f3: "ref_ok ?s3 f" using f g3 by (auto simp: ref_ok_def split: option.splits)
  from mergeFields_chain[OF ch3 ok3 f3]
  obtain a s4 where m: "mergeFields ?s3 l f = Some (Returned (Some a), s4)"
    and b: "next_map ?s3 \<le> a" "a < next_map s4" and g: "grows ?s3 s4"
    and v: "maps s4 a = deep_union ?s3 ls ++ range_fields ?s3 f"
    by blast
  have rf: "range_fields ?s3 f = range_fields s f"
    using f by (auto simp: ref_ok_def range_fields_def child_pre_simps split: option.splits)
  have du: "deep_union ?s3 ls = deep_union s ls"
    using ok same unfolding deep_union_def
  proof (induction ls rule: rev_induct)
    case Nil
    show ?case by simp
  next
    case (snoc k ks)
    then have "range_fields ?s3 (EventFields (loggers s k)) = range_fields s (EventFields (loggers s k))"
      by (auto simp: ref_ok_def range_fields_def child_pre_simps split: option.splits)
    with snoc show ?case by simp
  qed
  define s' where "s' = update_logger l (\<lambda>p. p\<lparr>Children := Children p @ [?c]\<rparr>)
                     (update_logger ?c (\<lambda>c. c\<lparr>EventFields := Some a\<rparr>) s4)"
  have c: "Child s l f = Some (Returned ?c, s')"
    using m by (simp add: Child_unfold[OF l] s'_def)
  have lg4: "loggers s4 = loggers ?s3" "next_logger s4 = next_logger ?s3" "stdout s4 = stdout ?s3"
    "next_map ?s3 \<le> next_map s4" "\<forall>a<next_map ?s3. maps s4 a = maps ?s3 a"
    using g by (simp_all add: grows_def)
  have lne: "l \<noteq> ?c" using l by simp
  have 1: "loggers s' = (loggers s)
        (?c := \<lparr>Level = Level (loggers s l), Writer = StdoutEncoder, Parent = Some l,
                             Children = [], EventFields = Some a, Serializer = None\<rparr>,
         l := (loggers s l)\<lparr>Children := Children (loggers s l) @ [?c]\<rparr>)"
    using lne by (simp add: s'_def update_logger_def lg4 child_pre_simps l)
  have 2: "next_logger s' = Suc ?c" "stdout s' = stdout s"
    by (simp_all add: s'_def update_logger_def lg4 child_pre_simps l)
  have 3: "next_map s \<le> a" "a < next_map s'"
    using b lg4(4) by (simp_all add: s'_def update_logger_def g3)
  have 4: "\<forall>b<next_map s. maps s' b = maps s b"
    using lg4(5) g3 by (simp add: s'_def update_logger_def)
  have 5: "maps s' a = deep_union s ls ++ range_fields s f"
    using v by (simp add: s'_def update_logger_def rf du)
  have "derived s l ls f None s'"
    unfolding derived_def using 1 2 3 4 5 by blast
  then show ?thesis using c ch by blast
qed

lemma derived_set_serializer:
  assumes "derived s l ls f z s'" and "l < next_logger s"
  shows "derived s l ls f z' (update_logger (next_logger s) (\<lambda>c. c\<lparr>Serializer := z'\<rparr>) s')"
proof -
  from assms(1) obtain a where a: "loggers s' = (loggers s)
        (next_logger s := \<lparr>Level = Level (loggers s l), Writer = StdoutEncoder, Parent = Some l,
                             Children = [], EventFields = Some a, Serializer = z\<rparr>,
         l := (loggers s l)\<lparr>Children := Children (loggers s l) @ [next_logger s]\<rparr>)"
    and r: "next_logger s' = Suc (next_logger s)" "stdout s' = stdout s"
       "next_map s \<le> a" "a < next_map s'"
       "\<forall>b<next_map s. maps s' b = maps s b"
       "maps s' a = deep_union s ls ++ range_fields s f"
    unfolding derived_def by blast
  have ne: "l \<noteq> next_logger s" using assms(2) by simp
  show ?thesis
    unfolding derived_def
    apply (rule exI[of _ a])
    using a r ne by (auto simp: update_logger_def fun_eq_iff)
qed

lemma derived_serializer_of_parent:
  "derived s l ls f z s' \<Longrightarrow> l < next_logger s \<Longrightarrow>
     Serializer (loggers s' l) = Serializer (loggers s l)"
  by (auto simp: derived_def)

lemma WithFields_result:
  assumes t: "tree_ok s" and l: "l < next_logger s" and f: "ref_ok s f"
  shows "\<exists>s' ls. WithFields s l f = Some (Returned (next_logger s), s') \<and>
     ancestor_chain (loggers s) l ls \<and> derived s l ls f (Serializer (loggers s l)) s'"
proof -
  from Child_result[OF t l f] obtain s1 ls
    where c: "Child s l f = Some (Returned (next_logger s), s1)"
      and ch: "ancestor_chain (loggers s) l ls" and d: "derived s l ls f None s1" by blast
  have "WithFields s l f = Some (Returned (next_logger s),
          update_logger (next_logger s) (\<lambda>c. c\<lparr>Serializer := Serializer (loggers s l)\<rparr>) s1)"
    using c derived_serializer_of_parent[OF d l] by (simp add: WithFields_def)
  with ch derived_set_serializer[OF d l] show ?thesis by blast
qed

lemma WithSerializers_result:
  assumes t: "tree_ok s" and l: "l < next_logger s"
  shows "\<exists>s' ls. WithSerializers s l tbl = Some (Returned (next_logger s), s') \<and>
     ancestor_chain (loggers s) l ls \<and> derived s l ls None (Some (Composite tbl)) s'"
proof -
  have f: "ref_ok s None" by (simp add: ref_ok_def)
  from Child_result[OF t l f] obtain s1 ls
    where c: "Child s l None = Some (Returned (next_logger s), s1)"
      and ch: "ancestor_chain (loggers s) l ls" and d: "derived s l ls None None s1" by blast
  have "WithSerializers s l tbl = Some (Returned (next_logger s),
          update_logger (next_logger s) (\<lambda>c. c\<lparr>Serializer := Some (Composite tbl)\<rparr>) s1)"
    using c by (simp add: WithSerializers_def)
  with ch derived_set_serializer[OF d l] show ?thesis by blast
qed

lemma derived_new_logger:
  assumes "derived s l ls f z s'" "l < next_logger s"
  shows "Parent (loggers s' (next_logger s)) = Some l"
    "Serializer (loggers s' (next_logger s)) = z"
    "Level (loggers s' (next_logger s)) = Level (loggers s l)"
    "\<exists>a. EventFields (loggers s' (next_logger s)) = Some a \<and>
         maps s' a = deep_union s ls ++ range_fields s f"
  using assms by (auto simp: derived_def)

lemma derived_keeps:
  assumes d: "derived s l ls f z s'" and t: "tree_ok s" and k: "k < next_logger s"
  shows "EventFields (loggers s' k) = EventFields (loggers s k)"
    and "Parent (loggers s' k) = Parent (loggers s k)"
    and "Level (loggers s' k) = Level (loggers s k)"
    and "Serializer (loggers s' k) = Serializer (loggers s k)"
    and "range_fields s' (EventFields (loggers s' k)) = range_fields s (EventFields (loggers s k))"
proof -
  show e: "EventFields (loggers s' k) = EventFields (loggers s k)"
    using d k by (auto simp: derived_def)
  show "Parent (loggers s' k) = Parent (loggers s k)"
    using d k by (auto simp: derived_def)
  show "Level (loggers s' k) = Level (loggers s k)"
    using d k by (auto simp: derived_def)
  show "Serializer (loggers s' k) = Serializer (loggers s k)"
    using d k by (auto simp: derived_def)
  from t k obtain b where b: "b < next_map s" "EventFields (loggers s k) = Some b"
    by (auto simp: tree_ok_def)
  moreover have "maps s' b = maps s b" using d b(1) by (auto simp: derived_def)
  ultimately show "range_fields s' (EventFields (loggers s' k)) = range_fields s (EventFields (loggers s k))"
    using e by (simp add: range_fields_def)
qed

lemma derived_tree_ok:
  assumes d: "derived s l ls f z s'" and t: "tree_ok s" and l: "l < next_logger s"
  shows "tree_ok s'"
proof -
  from d obtain a where n: "next_logger s' = Suc (next_logger s)"
    and a: "a < next_map s'" "next_map s \<le> a"
    and c: "EventFields (loggers s' (next_logger s)) = Some a"
           "Parent (loggers s' (next_logger s)) = Some l"
    using l by (auto simp: derived_def)
  have nm: "next_map s \<le> next_map s'" using a by simp
  show ?thesis
    unfolding tree_ok_def
  proof (intro allI impI)
    fix k assume "k < next_logger s'"
    then consider "k < next_logger s" | "k = next_logger s" using n by linarith
    then show "(\<exists>a<next_map s'. EventFields (loggers s' k) = Some a) \<and>
               (\<forall>p. Parent (loggers s' k) = Some p \<longrightarrow> p < k)"
    proof cases
      case 1
      from t 1 obtain b where "b < next_map s" "EventFields (loggers s k) = Some b"
        and "\<forall>p. Parent (loggers s k) = Some p \<longrightarrow> p < k"
        by (auto simp: tree_ok_def)
      then show ?thesis
        using derived_keeps(1,2)[OF d t 1] nm by auto
    next
      case 2
      then show ?thesis using a c l by auto
    qed
  qed
qed

lemma derived_frozen_ok:
  assumes d: "derived s l ls f z s'" and t: "tree_ok s" and fr: "frozen_ok s"
    and l: "l < next_logger s" and ch: "ancestor_chain (loggers s) l ls"
  shows "frozen_ok s'"
proof -
  from d obtain a where n: "next_logger s' = Suc (next_logger s)"
    and c: "EventFields (loggers s' (next_logger s)) = Some a"
           "Parent (loggers s' (next_logger s)) = Some l"
    and v: "maps s' a = deep_union s ls ++ range_fields s f"
    using l by (auto simp: derived_def)
  have du: "deep_union s ls = range_fields s (EventFields (loggers s l))"
    using frozen_deep_union[OF fr t ch refl l] .
  show ?thesis
    unfolding frozen_ok_def
  proof (intro allI impI)
    fix k p assume k: "k < next_logger s'" and p: "Parent (loggers s' k) = Some p"
    from k consider "k < next_logger s" | "k = next_logger s" using n by linarith
    then show "range_fields s' (EventFields (loggers s' p)) ++ range_fields s' (EventFields (loggers s' k))
       = range_fields s' (EventFields (loggers s' k))"
    proof cases
      case 1
      have pp: "Parent (loggers s k) = Some p" using p derived_keeps(2)[OF d t 1] by simp
      then have "p < k" using t 1 by (auto simp: tree_ok_def)
      then have p1: "p < next_logger s" using 1 by simp
      show ?thesis
        using fr 1 pp derived_keeps(5)[OF d t 1] derived_keeps(5)[OF d t p1]
        by (auto simp: frozen_ok_def)
    next
      case 2
      then have pl: "p = l" using p c by simp
      have "range_fields s' (EventFields (loggers s' k)) = deep_union s ls ++ range_fields s f"
        using 2 c v by (simp add: range_fields_def)
      then show ?thesis
        using derived_keeps(5)[OF d t l] pl du by (simp add: map_add_self)
    qed
  qed
qed

section \<open>Serializers and Log\<close>

lemma apply_transforms_string:
  "apply_transforms tbl (DString m) s =
     (if tbl = [] then (Returned (), s) else (Panicked InterfaceConversion, s))"
  by (cases tbl) auto

lemma apply_transforms_frame:
  "apply_transforms tbl d s = (r, s') \<Longrightarrow>
     loggers s' = loggers s \<and> next_logger s' = next_logger s \<and> next_map s' = next_map s \<and>
     stdout s' = stdout s \<and> (\<forall>b. d \<noteq> DMap (Some b) \<longrightarrow> maps s' b = maps s b)"
proof (induction tbl d s arbitrary: r s' rule: apply_transforms.induct)
  case (1 data s)
  then show ?case by simp
next
  case (2 key f rest data s)
  note eq = "2.prems"
  show ?case
  proof (cases data)
    case (DString x)
    with eq show ?thesis by simp
  next
    case (DMap m)
    show ?thesis
    proof (cases "range_fields s m key")
      case None
      have "apply_transforms rest data s = (r, s')" using eq DMap None by simp
      from "2.IH"(1)[OF DMap None this] show ?thesis .
    next
      case (Some val)
      note sv = this
      show ?thesis
      proof (cases m)
        case None
        with eq DMap sv show ?thesis by simp
      next
        case (Some a)
        let ?s1 = "s\<lparr>maps := (maps s)(a := (maps s a)(key \<mapsto> f val))\<rparr>"
        have "apply_transforms rest data ?s1 = (r, s')"
          using eq DMap sv Some by simp
        from "2.IH"(2)[OF DMap sv Some this]
        show ?thesis using DMap Some by auto
      qed
    qed
  qed
qed

lemma call_serializer_frame:
  assumes "call_serializer z d s = (r, s')"
  shows "loggers s' = loggers s \<and> next_logger s' = next_logger s \<and> next_map s' = next_map s \<and>
     stdout s' = stdout s \<and> (\<forall>b. d \<noteq> DMap (Some b) \<longrightarrow> maps s' b = maps s b) \<and>
     (\<forall>x. r = Returned x \<longrightarrow> x = d)"
proof (cases z)
  case (Composite tbl)
  obtain r1 s1 where a: "apply_transforms tbl d s = (r1, s1)"
    by (cases "apply_transforms tbl d s")
  have "s' = s1" "\<forall>x. r = Returned x \<longrightarrow> x = d"
    using assms Composite a by (auto simp: call_serializer_def split: outcome.splits)
  with apply_transforms_frame[OF a] show ?thesis by simp
qed

lemma serializeEntry_frame:
  assumes "serializeEntry s l entry = (r, s')"
  shows "loggers s' = loggers s \<and> next_logger s' = next_logger s \<and> next_map s' = next_map s \<and>
     stdout s' = stdout s \<and> (\<forall>b. Fields entry \<noteq> Some b \<longrightarrow> maps s' b = maps s b)"
proof (cases "Serializer (loggers s l)")
  case None
  with assms show ?thesis by (simp add: serializeEntry_def)
next
  case (Some z)
  obtain r1 s1 where c1: "call_serializer z (DString (Message entry)) s = (r1, s1)"
    by (cases "call_serializer z (DString (Message entry)) s")
  note f1 = call_serializer_frame[OF c1]
  obtain r2 s2 where c2: "call_serializer z (DMap (Fields entry)) s1 = (r2, s2)"
    by (cases "call_serializer z (DMap (Fields entry)) s1")
  note f2 = call_serializer_frame[OF c2]
  have "s' = s1 \<or> s' = s2"
    using assms Some c1 c2
    by (auto simp: serializeEntry_def split: outcome.splits dyn.splits)
  then show ?thesis using f1 f2 by auto
qed

lemma grows_keeps: "grows s s' \<Longrightarrow> keeps s s'"
  by (simp add: grows_def keeps_def)

lemma serializeEntry_empty:
  "Serializer (loggers s l) = Some (Composite []) \<Longrightarrow> serializeEntry s l entry = (Returned entry, s)"
  by (simp add: serializeEntry_def call_serializer_def)

lemma serializeEntry_panics:
  "Serializer (loggers s l) = Some (Composite tbl) \<Longrightarrow> tbl \<noteq> [] \<Longrightarrow>
     serializeEntry s l entry = (Panicked InterfaceConversion, s)"
  by (simp add: serializeEntry_def call_serializer_def apply_transforms_string)

lemma Encode_result:
  "Encode e w entry s =
     (encode_error e \<lparr>Timestamp = Timestamp entry, Message = Message entry,
                        EntryLevel = EntryLevel entry,
                        Fields = (case Fields entry of None \<Rightarrow> None | Some a \<Rightarrow> Some (maps s a))\<rparr>,
      case encode_error e \<lparr>Timestamp = Timestamp entry, Message = Message entry,
                        EntryLevel = EntryLevel entry,
                        Fields = (case Fields entry of None \<Rightarrow> None | Some a \<Rightarrow> Some (maps s a))\<rparr> of
        None \<Rightarrow> s\<lparr>stdout := stdout s @ [Encoded \<lparr>Timestamp = Timestamp entry, Message = Message entry,
                        EntryLevel = EntryLevel entry,
                        Fields = (case Fields entry of None \<Rightarrow> None | Some a \<Rightarrow> Some (maps s a))\<rparr>]\<rparr>
      | Some err \<Rightarrow> s)"
  by (cases w) (simp add: Encode_def Let_def split: option.splits)

lemma Log_after_merge:
  assumes en: "isEnabled s l level"
    and m: "mergeFields s l f = Some (Returned (Some a), s1)"
    and lg: "loggers s1 = loggers s" and so: "stdout s1 = stdout s"
  shows "\<exists>s'. Log e s l level msg f =
           Some (if panics_on_message (Serializer (loggers s l)) then Panicked InterfaceConversion
                 else Returned (), s') \<and>
         loggers s' = loggers s1 \<and> next_logger s' = next_logger s1 \<and> next_map s' = next_map s1 \<and>
         maps s' = maps s1 \<and>
         stdout s' = (if panics_on_message (Serializer (loggers s l)) then stdout s
                      else stdout s @ [encode_line e (entry_of e level msg (maps s1 a))])"
proof -
  let ?entry = "\<lparr>Timestamp = now e, Message = msg, EntryLevel = level, Fields = Some a\<rparr>"
  have ser: "(if Serializer (loggers s1 l) \<noteq> None then serializeEntry s1 l ?entry
             else (Returned ?entry, s1)) =
        (if panics_on_message (Serializer (loggers s l)) then (Panicked InterfaceConversion, s1)
         else (Returned ?entry, s1))"
  proof (cases "Serializer (loggers s l)")
    case None
    then show ?thesis by (simp add: lg panics_on_message_def)
  next
    case (Some z)
    then obtain tbl where z: "Serializer (loggers s1 l) = Some (Composite tbl)"
      using lg by (cases z) simp
    show ?thesis
    proof (cases "tbl = []")
      case True
      with z serializeEntry_empty[of s1 l ?entry] show ?thesis
        using lg by (simp add: panics_on_message_def)
    next
      case False
      with z serializeEntry_panics[of s1 l tbl ?entry] show ?thesis
        using lg by (simp add: panics_on_message_def)
    qed
  qed
  show ?thesis
  proof (cases "panics_on_message (Serializer (loggers s l))")
    case True
    have "Log e s l level msg f = Some (Panicked InterfaceConversion, s1)"
      using en m ser True by (simp add: Log_def)
    then show ?thesis using True so by simp
  next
    case False
    let ?w = "entry_of e level msg (maps s1 a)"
    let ?s' = "s1\<lparr>stdout := stdout s1 @ [encode_line e ?w]\<rparr>"
    have "Log e s l level msg f = Some (Returned (), ?s')"
      using en m ser False
      by (simp add: Log_def Encode_result entry_of_def encode_line_def split: option.splits)
    then show ?thesis using False so by simp
  qed
qed

lemma Log_result:
  assumes t: "tree_ok s" and l: "l < next_logger s" and f: "ref_ok s f"
    and ch: "ancestor_chain (loggers s) l ls"
  shows "\<exists>out s'. Log e s l level msg f = Some (out, s') \<and> keeps s s' \<and>
     (out, stdout s') =
       (if \<not> isEnabled s l level then (Returned (), stdout s)
        else if panics_on_message (Serializer (loggers s l))
          then (Panicked InterfaceConversion, stdout s)
        else (Returned (),
              stdout s @ [encode_line e (entry_of e level msg
                            (deep_union s ls ++ range_fields s f))]))"
proof (cases "isEnabled s l level")
  case False
  then have "Log e s l level msg f = Some (Returned (), s)" by (simp add: Log_def)
  then show ?thesis using False by (simp add: keeps_def)
next
  case True
  from tree_ok_chain[OF t l] obtain ls' where
    ch': "ancestor_chain (loggers s) l ls'" and le: "\<forall>k\<in>set ls'. k \<le> l" by blast
  have eq: "ls' = ls" using ch' ch by (rule ancestor_chain_unique)
  have ok: "\<forall>k\<in>set ls. ref_ok s (EventFields (loggers s k))"
  proof
    fix k assume "k \<in> set ls"
    then have "k < next_logger s" using le l eq by fastforce
    then show "ref_ok s (EventFields (loggers s k))" by (rule tree_ok_ref[OF t])
  qed
  from mergeFields_chain[OF ch ok f]
  obtain a s1 where m: "mergeFields s l f = Some (Returned (Some a), s1)"
    and g: "grows s s1" and v: "maps s1 a = deep_union s ls ++ range_fields s f"
    by blast
  have lg: "loggers s1 = loggers s" "stdout s1 = stdout s" using g by (simp_all add: grows_def)
  from Log_after_merge[OF True m lg, of e msg]
  obtain s' where r: "Log e s l level msg f =
           Some (if panics_on_message (Serializer (loggers s l)) then Panicked InterfaceConversion
                 else Returned (), s')"
    and fr: "loggers s' = loggers s1" "next_logger s' = next_logger s1" "next_map s' = next_map s1"
         "maps s' = maps s1"
    and so: "stdout s' = (if panics_on_message (Serializer (loggers s l)) then stdout s
                      else stdout s @ [encode_line e (entry_of e level msg (maps s1 a))])"
    by blast
  have k: "keeps s s'" using grows_keeps[OF g] fr by (simp add: keeps_def)
  show ?thesis using r k so True v by auto
qed

text \<open>When the encoder returns an error, the line printed is the diagnostic one.\<close>

lemma encode_line_failure:
  "encode_error e w = Some err \<Longrightarrow> encode_line e w = Printed (''Error encoding log entry: '' @ err)"
  by (simp add: encode_line_def)

lemma encode_line_success: "encode_error e w = None \<Longrightarrow> encode_line e w = Encoded w"
  by (simp add: encode_line_def)

lemma encode_line_fields: "encode_line e (entry_of e' level message m) = Encoded w \<Longrightarrow> Fields w \<noteq> None"
  by (auto simp: encode_line_def entry_of_def split: option.splits)

section \<open>The invariants along a program\<close>

lemma persists_refl: "persists s s"
  by (simp add: persists_def)

lemma persists_trans:
  assumes a: "persists s s1" and b: "persists s1 s2"
  shows "persists s s2"
proof -
  have n: "next_logger s \<le> next_logger s1" "next_map s \<le> next_map s1"
    using a by (simp_all add: persists_def)
  have "\<forall>k<next_logger s.
         EventFields (loggers s2 k) = EventFields (loggers s k) \<and>
         Parent (loggers s2 k) = Parent (loggers s k) \<and>
         Level (loggers s2 k) = Level (loggers s k) \<and>
         Serializer (loggers s2 k) = Serializer (loggers s k)"
  proof (intro allI impI)
    fix k assume k: "k < next_logger s"
    then have "k < next_logger s1" using n by simp
    then show "EventFields (loggers s2 k) = EventFields (loggers s k) \<and>
         Parent (loggers s2 k) = Parent (loggers s k) \<and>
         Level (loggers s2 k) = Level (loggers s k) \<and>
         Serializer (loggers s2 k) = Serializer (loggers s k)"
      using a b k by (simp add: persists_def)
  qed
  moreover have "\<forall>c<next_map s. maps s2 c = maps s c"
  proof (intro allI impI)
    fix c assume c: "c < next_map s"
    then have "c < next_map s1" using n by simp
    then show "maps s2 c = maps s c" using a b c by (simp add: persists_def)
  qed
  moreover have "next_logger s \<le> next_logger s2" "next_map s \<le> next_map s2"
    using a b by (simp_all add: persists_def)
  ultimately show ?thesis by (simp add: persists_def)
qed

lemma keeps_persists: "keeps s s' \<Longrightarrow> persists s s'"
  by (simp add: keeps_def persists_def)

lemma persists_range_fields:
  assumes "persists s s'" "tree_ok s" "k < next_logger s"
  shows "range_fields s' (EventFields (loggers s' k)) = range_fields s (EventFields (loggers s k))"
proof -
  from assms(2,3) obtain b where b: "b < next_map s" "EventFields (loggers s k) = Some b"
    by (auto simp: tree_ok_def)
  moreover have "EventFields (loggers s' k) = Some b" "maps s' b = maps s b"
    using assms(1,3) b by (simp_all add: persists_def)
  ultimately show ?thesis by (simp add: range_fields_def)
qed

lemma derived_persists:
  assumes d: "derived s l ls f z s'" and t: "tree_ok s" and l: "l < next_logger s"
  shows "persists s s'"
proof -
  from d obtain a where "next_logger s' = Suc (next_logger s)" "next_map s \<le> a" "a < next_map s'"
    "\<forall>b<next_map s. maps s' b = maps s b"
    by (auto simp: derived_def)
  then show ?thesis
    using derived_keeps(1-4)[OF d t] by (simp add: persists_def)
qed

lemma persists_tree_ok_old:
  assumes "persists s s'" "tree_ok s" "k < next_logger s"
  shows "(\<exists>a<next_map s'. EventFields (loggers s' k) = Some a) \<and>
         (\<forall>p. Parent (loggers s' k) = Some p \<longrightarrow> p < k)"
proof -
  from assms(2,3) obtain b where b: "b < next_map s" "EventFields (loggers s k) = Some b"
    and p: "\<forall>p. Parent (loggers s k) = Some p \<longrightarrow> p < k"
    by (auto simp: tree_ok_def)
  have "EventFields (loggers s' k) = Some b" "Parent (loggers s' k) = Parent (loggers s k)"
    "b < next_map s'"
    using assms(1,3) b by (simp_all add: persists_def)
  then show ?thesis using p by simp
qed

lemma persists_frozen_old:
  assumes st: "persists s s'" and t: "tree_ok s" and fr: "frozen_ok s" and k: "k < next_logger s"
    and p: "Parent (loggers s' k) = Some p"
  shows "range_fields s' (EventFields (loggers s' p)) ++ range_fields s' (EventFields (loggers s' k))
           = range_fields s' (EventFields (loggers s' k))"
proof -
  have pp: "Parent (loggers s k) = Some p" using st k p by (simp add: persists_def)
  then have "p < k" using t k by (auto simp: tree_ok_def)
  then have p1: "p < next_logger s" using k by simp
  show ?thesis
    using fr k pp persists_range_fields[OF st t k] persists_range_fields[OF st t p1]
    by (auto simp: frozen_ok_def)
qed

lemma persists_same_loggers_ok:
  assumes st: "persists s s'" and n: "next_logger s' = next_logger s" and ok: "store_ok s"
  shows "store_ok s'"
  unfolding store_ok_def tree_ok_def frozen_ok_def
  using persists_tree_ok_old[OF st] persists_frozen_old[OF st] ok n
  by (simp add: store_ok_def)

lemma new_map_persists: "persists s (new_map m s)" "next_logger (new_map m s) = next_logger s"
  by (simp_all add: persists_def new_map_def)

lemma new_root_simps:
  "next_logger (snd (GenerateLogger s)) = Suc (next_logger s)"
  "next_map (snd (GenerateLogger s)) = Suc (next_map s)"
  "loggers (snd (GenerateLogger s)) = (loggers s)(next_logger s :=
      \<lparr>Level = ''info'', Writer = StdoutEncoder, Parent = None, Children = [],
       EventFields = Some (next_map s), Serializer = None\<rparr>)"
  "maps (snd (GenerateLogger s)) = (maps s)(next_map s := Map.empty)"
  "stdout (snd (GenerateLogger s)) = stdout s"
  "fst (GenerateLogger s) = next_logger s"
  by (simp_all add: GenerateLogger_def make_map_def)

lemma new_root_persists: "persists s (snd (GenerateLogger s))"
  by (simp add: persists_def new_root_simps)

lemma new_root_ok:
  assumes ok: "store_ok s"
  shows "store_ok (snd (GenerateLogger s))"
proof -
  let ?s' = "snd (GenerateLogger s)"
  have st: "persists s ?s'" by (rule new_root_persists)
  have t: "tree_ok s" and fr: "frozen_ok s" using ok by (simp_all add: store_ok_def)
  have "tree_ok ?s'"
    unfolding tree_ok_def
  proof (intro allI impI)
    fix k assume "k < next_logger ?s'"
    then have "k < Suc (next_logger s)" by (simp add: new_root_simps)
    then consider "k < next_logger s" | "k = next_logger s" by linarith
    then show "(\<exists>a<next_map ?s'. EventFields (loggers ?s' k) = Some a) \<and>
               (\<forall>p. Parent (loggers ?s' k) = Some p \<longrightarrow> p < k)"
    proof cases
      case 1
      then show ?thesis by (rule persists_tree_ok_old[OF st t])
    next
      case 2
      then show ?thesis by (simp add: new_root_simps)
    qed
  qed
  moreover have "frozen_ok ?s'"
    unfolding frozen_ok_def
  proof (intro allI impI)
    fix k p assume k: "k < next_logger ?s'" and p: "Parent (loggers ?s' k) = Some p"
    from k have "k < Suc (next_logger s)" by (simp add: new_root_simps)
    then consider "k < next_logger s" | "k = next_logger s" by linarith
    then show "range_fields ?s' (EventFields (loggers ?s' p)) ++
               range_fields ?s' (EventFields (loggers ?s' k)) =
               range_fields ?s' (EventFields (loggers ?s' k))"
    proof cases
      case 1
      then show ?thesis using p by (rule persists_frozen_old[OF st t fr])
    next
      case 2
      then show ?thesis using p by (simp add: new_root_simps)
    qed
  qed
  ultimately show ?thesis by (simp add: store_ok_def)
qed

lemma step_ok_persists:
  assumes ok: "store_ok s" and st: "step s c = Some s'"
  shows "store_ok s' \<and> persists s s'"
proof -
  have t: "tree_ok s" and fr: "frozen_ok s" using ok by (simp_all add: store_ok_def)
  show ?thesis
  proof (cases c)
    case NewRoot
    then have "s' = snd (GenerateLogger s)" using st by simp
    then show ?thesis using new_root_ok[OF ok] new_root_persists by simp
  next
    case (NewMap m)
    then have "s' = new_map m s" using st by simp
    then show ?thesis
      using persists_same_loggers_ok[OF new_map_persists ok] new_map_persists(1) by simp
  next
    case (CallChild l f)
    then have l: "l < next_logger s" and f: "ref_ok s f"
      and e: "map_option snd (Child s l f) = Some s'"
      using st by (simp_all split: if_splits)
    from Child_result[OF t l f] obtain s1 ls where
      "Child s l f = Some (Returned (next_logger s), s1)"
      and ch: "ancestor_chain (loggers s) l ls" and d: "derived s l ls f None s1" by blast
    then have d': "derived s l ls f None s'" using e by simp
    show ?thesis
      using derived_tree_ok[OF d' t l] derived_frozen_ok[OF d' t fr l ch] derived_persists[OF d' t l]
      by (simp add: store_ok_def)
  next
    case (CallWithFields l f)
    then have l: "l < next_logger s" and f: "ref_ok s f"
      and e: "map_option snd (WithFields s l f) = Some s'"
      using st by (simp_all split: if_splits)
    from WithFields_result[OF t l f] obtain s1 ls where
      "WithFields s l f = Some (Returned (next_logger s), s1)"
      and ch: "ancestor_chain (loggers s) l ls"
      and d: "derived s l ls f (Serializer (loggers s l)) s1" by blast
    then have d': "derived s l ls f (Serializer (loggers s l)) s'" using e by simp
    show ?thesis
      using derived_tree_ok[OF d' t l] derived_frozen_ok[OF d' t fr l ch] derived_persists[OF d' t l]
      by (simp add: store_ok_def)
  next
    case (CallWithSerializers l tbl)
    then have l: "l < next_logger s"
      and e: "map_option snd (WithSerializers s l tbl) = Some s'"
      using st by (simp_all split: if_splits)
    from WithSerializers_result[OF t l, of tbl] obtain s1 ls where
      "WithSerializers s l tbl = Some (Returned (next_logger s), s1)"
      and ch: "ancestor_chain (loggers s) l ls"
      and d: "derived s l ls None (Some (Composite tbl)) s1" by blast
    then have d': "derived s l ls None (Some (Composite tbl)) s'" using e by simp
    show ?thesis
      using derived_tree_ok[OF d' t l] derived_frozen_ok[OF d' t fr l ch] derived_persists[OF d' t l]
      by (simp add: store_ok_def)
  next
    case (CallLog e l level msg f)
    then have l: "l < next_logger s" and f: "ref_ok s f"
      and e: "map_option snd (Log e s l level msg f) = Some s'"
      using st by (simp_all split: if_splits)
    from tree_ok_chain[OF t l] obtain ls where ch: "ancestor_chain (loggers s) l ls" by blast
    from Log_result[OF t l f ch, of e level msg] obtain out s1 where
      "Log e s l level msg f = Some (out, s1)" and k: "keeps s s1" by blast
    then have k': "keeps s s'" using e by simp
    then have n: "next_logger s' = next_logger s" by (simp add: keeps_def)
    show ?thesis
      using persists_same_loggers_ok[OF keeps_persists[OF k'] n ok] keeps_persists[OF k'] by simp
  qed
qed

lemma store_ok_init: "store_ok init"
  by (simp add: store_ok_def tree_ok_def frozen_ok_def init_def)

lemma run_ok_persists:
  "store_ok s \<Longrightarrow> run cs s = Some s' \<Longrightarrow> store_ok s' \<and> persists s s'"
proof (induction cs arbitrary: s)
  case Nil
  then show ?case by (simp add: persists_refl)
next
  case (Cons c cs)
  from Cons.prems(2) obtain s1 where s1: "step s c = Some s1" and r: "run cs s1 = Some s'"
    by (cases "step s c") simp_all
  from step_ok_persists[OF Cons.prems(1) s1] have "store_ok s1" "persists s s1" by simp_all
  with Cons.IH[OF _ r] show ?case using persists_trans by blast
qed

lemma run_init_ok: "run cs init = Some s \<Longrightarrow> store_ok s"
  using run_ok_persists[OF store_ok_init] by blast

lemma run_append: "run (cs @ cs') s = Option.bind (run cs s) (run cs')"
  by (induction cs arbitrary: s) (simp_all add: bind_assoc cong: Option.bind_cong)

lemma reachable_merge:
  assumes r: "run cs init = Some s" and l: "l < next_logger s" and f: "ref_ok s flds"
  shows "\<exists>ls a s1. ancestor_chain (loggers s) l ls \<and>
           deep_union s ls = range_fields s (EventFields (loggers s l)) \<and>
           mergeFields s l flds = Some (Returned (Some a), s1) \<and> grows s s1 \<and>
           next_map s \<le> a \<and> maps s1 a = deep_union s ls ++ range_fields s flds"
proof -
  have ok: "store_ok s" using r by (rule run_init_ok)
  then have t: "tree_ok s" and fr: "frozen_ok s" by (simp_all add: store_ok_def)
  from tree_ok_chain[OF t l] obtain ls where
    ch: "ancestor_chain (loggers s) l ls" and le: "\<forall>k\<in>set ls. k \<le> l" by blast
  have oks: "\<forall>k\<in>set ls. ref_ok s (EventFields (loggers s k))"
  proof
    fix k assume "k \<in> set ls"
    then have "k < next_logger s" using le l by fastforce
    then show "ref_ok s (EventFields (loggers s k))" by (rule tree_ok_ref[OF t])
  qed
  from mergeFields_chain[OF ch oks f] obtain a s1 where
    "mergeFields s l flds = Some (Returned (Some a), s1)" "grows s s1" "next_map s \<le> a"
    "maps s1 a = deep_union s ls ++ range_fields s flds" by blast
  with ch frozen_deep_union[OF fr t ch refl l] show ?thesis by blast
qed

text \<open>
  On a logger whose serializer does not panic on the message (none, or a closure over an
  empty table), \<open>Log\<close> returns, and it appends a line to standard output exactly when the
  severity of the call is at least the severity of the logger's level: the entry when the
  encoder accepts it, the diagnostic line otherwise.
\<close>

lemma log_emits_iff_enabled:
  assumes r: "run cs init = Some s" and l: "l < next_logger s" and f: "ref_ok s flds"
    and z: "\<not> panics_on_message (Serializer (loggers s l))"
  shows "\<exists>s' ls. ancestor_chain (loggers s) l ls \<and>
           Log e s l level message flds = Some (Returned (), s') \<and>
           stdout s' =
             (if index0 levels level \<ge> index0 levels (Level (loggers s l))
              then stdout s @ [encode_line e (entry_of e level message
                                 (deep_union s ls ++ range_fields s flds))]
              else stdout s)"
proof -
  have t: "tree_ok s" using run_init_ok[OF r] by (simp add: store_ok_def)
  from tree_ok_chain[OF t l] obtain ls where ch: "ancestor_chain (loggers s) l ls" by blast
  from Log_result[OF t l f ch, of e level message] obtain out s' where
    "Log e s l level message flds = Some (out, s')"
    "(out, stdout s') =
       (if \<not> isEnabled s l level then (Returned (), stdout s)
        else if panics_on_message (Serializer (loggers s l))
          then (Panicked InterfaceConversion, stdout s)
        else (Returned (),
              stdout s @ [encode_line e (entry_of e level message
                            (deep_union s ls ++ range_fields s flds))]))"
    by blast
  then have "Log e s l level message flds = Some (Returned (), s') \<and>
           stdout s' =
             (if index0 levels level \<ge> index0 levels (Level (loggers s l))
              then stdout s @ [encode_line e (entry_of e level message
                                 (deep_union s ls ++ range_fields s flds))]
              else stdout s)"
    using z by (auto simp: isEnabled_def split: if_splits)
  with ch show ?thesis by blast
qed

section \<open>The example programs, evaluated\<close>

lemmas eval_defs = init_def make_map_def range_fields_def copy_into_def update_logger_def
  merge_own_def after_parent_def GenerateLogger_def Child_def WithFields_def WithSerializers_def
  call_serializer_def serializeEntry_def Encode_def Log_def isEnabled_def index0_def levels_def
  ref_ok_def new_map_def mergeFields.simps Let_def

lemma family_facts:
  "run family_script init = Some family_state"
  "next_logger family_state = 4" "next_map family_state = 12"
  "Parent (loggers family_state 1) = Some 0"
  "Parent (loggers family_state 2) = Some 1"
  "Parent (loggers family_state 3) = Some 1"
  "Parent (loggers family_state 0) = None"
  "EventFields (loggers family_state 0) = Some 0"
  "EventFields (loggers family_state 1) = Some 3"
  "EventFields (loggers family_state 2) = Some 7"
  "EventFields (loggers family_state 3) = Some 11"
  "maps family_state 0 = Map.empty"
  "maps family_state 3 = [''p'' \<mapsto> GInt 1]"
  "maps family_state 7 = [''p'' \<mapsto> GInt 1, ''x'' \<mapsto> GInt 1]"
  "maps family_state 11 = [''p'' \<mapsto> GInt 1, ''y'' \<mapsto> GInt 2]"
  unfolding family_state_def family_script_def
  by (simp_all add: eval_defs)

lemma masked_facts:
  "run masked_script init = Some masked_state"
  "next_logger masked_state = 2" "next_map masked_state = 3"
  "Level (loggers masked_state 1) = ''info''"
  "Parent (loggers masked_state 1) = Some 0"
  "EventFields (loggers masked_state 1) = Some 2"
  "Serializer (loggers masked_state 1) = Some (Composite [(''secret'', redact)])"
  "Serializer (loggers masked_state 0) = None"
  "maps masked_state 2 = Map.empty"
  "stdout masked_state = []"
  unfolding masked_state_def masked_script_def
  by (simp_all add: eval_defs)

lemma later_facts_full:
  "run (masked_script @ later_script) init = Some later_state"
  "next_logger later_state = 4"
  "EventFields (loggers later_state 1) = Some 2"
  "maps later_state 2 = Map.empty"
  "maps later_state 3 = [''secret'' \<mapsto> GStr ''abc'', ''other'' \<mapsto> GStr ''x'']"
  "Serializer (loggers later_state 2) = Some (Composite [(''secret'', redact)])"
  "Serializer (loggers later_state 3) = None"
  "length (stdout later_state) = 2"
  unfolding later_state_def later_script_def masked_script_def
  by (simp_all add: eval_defs quiet_env_def)

lemma later_facts: "run later_script masked_state = Some later_state"
  using later_facts_full(1) by (simp add: run_append masked_facts(1))

lemma secret_facts:
  "run (secret_script f) init = Some (secret_state f)"
  "next_logger (secret_state f) = 2" "next_map (secret_state f) = 4"
  "Level (loggers (secret_state f) 1) = ''info''"
  "Parent (loggers (secret_state f) 1) = Some 0"
  "Parent (loggers (secret_state f) 0) = None"
  "EventFields (loggers (secret_state f) 1) = Some 2"
  "EventFields (loggers (secret_state f) 0) = Some 0"
  "Serializer (loggers (secret_state f) 1) = Some (Composite [(''secret'', f)])"
  "maps (secret_state f) 0 = Map.empty"
  "maps (secret_state f) 2 = Map.empty"
  "maps (secret_state f) 3 = [''secret'' \<mapsto> GStr ''abc'', ''other'' \<mapsto> GStr ''x'']"
  "stdout (secret_state f) = []"
  unfolding secret_state_def secret_script_def
  by (simp_all add: eval_defs)

section \<open>Field resolution\<close>

text \<open>
  C1. In a state reached by any program over the package, for every logger \<open>l\<close> and every
  call-site map: \<open>mergeFields\<close> returns a map holding the union of the event fields along the
  ancestor chain of \<open>l\<close>, root first, later nodes overriding earlier ones and the call-site
  fields overriding all; and an entry that \<open>Log\<close> writes carries exactly these fields. In
  particular, below a parent with fields p=1, the child made with x=1 merges to p=1, x=1 and
  its sibling made with y=2 merges to p=1, y=2.
\<close>

theorem merged_fields_deep_union:
  "(run cs init = Some s \<and> l < next_logger s \<and> ref_ok s flds \<longrightarrow>
      (\<exists>ls. ancestor_chain (loggers s) l ls \<and>
         (\<exists>a s1. mergeFields s l flds = Some (Returned (Some a), s1) \<and>
                  maps s1 a = deep_union s ls ++ range_fields s flds) \<and>
         (\<exists>out s'. Log e s l level message flds = Some (out, s') \<and>
            (out, stdout s') =
              (if \<not> isEnabled s l level then (Returned (), stdout s)
               else if panics_on_message (Serializer (loggers s l))
                 then (Panicked InterfaceConversion, stdout s)
               else (Returned (),
                     stdout s @ [encode_line e (entry_of e level message
                                   (deep_union s ls ++ range_fields s flds))]))))) \<and>
   (run family_script init = Some family_state \<and>
    range_fields family_state (EventFields (loggers family_state 1)) = [''p'' \<mapsto> GInt 1] \<and>
    Parent (loggers family_state 2) = Some 1 \<and> Parent (loggers family_state 3) = Some 1 \<and>
    (\<exists>a s1. mergeFields family_state 2 None = Some (Returned (Some a), s1) \<and>
             maps s1 a = [''p'' \<mapsto> GInt 1, ''x'' \<mapsto> GInt 1]) \<and>
    (\<exists>a s1. mergeFields family_state 3 None = Some (Returned (Some a), s1) \<and>
             maps s1 a = [''p'' \<mapsto> GInt 1, ''y'' \<mapsto> GInt 2]))"
proof (intro conjI impI)
  assume h: "run cs init = Some s \<and> l < next_logger s \<and> ref_ok s flds"
  then have r: "run cs init = Some s" and l: "l < next_logger s" and f: "ref_ok s flds"
    by simp_all
  have t: "tree_ok s" using run_init_ok[OF r] by (simp add: store_ok_def)
  from reachable_merge[OF r l f] obtain ls a s1 where
    ch: "ancestor_chain (loggers s) l ls"
    and m: "mergeFields s l flds = Some (Returned (Some a), s1)"
           "maps s1 a = deep_union s ls ++ range_fields s flds" by blast
  from Log_result[OF t l f ch, of e level message] m ch
  show "\<exists>ls. ancestor_chain (loggers s) l ls \<and>
         (\<exists>a s1. mergeFields s l flds = Some (Returned (Some a), s1) \<and>
                  maps s1 a = deep_union s ls ++ range_fields s flds) \<and>
         (\<exists>out s'. Log e s l level message flds = Some (out, s') \<and>
            (out, stdout s') =
              (if \<not> isEnabled s l level then (Returned (), stdout s)
               else if panics_on_message (Serializer (loggers s l))
                 then (Panicked InterfaceConversion, stdout s)
               else (Returned (),
                     stdout s @ [encode_line e (entry_of e level message
                                   (deep_union s ls ++ range_fields s flds))])))"
    by blast
next
  show "run family_script init = Some family_state" by (rule family_facts)
next
  show "range_fields family_state (EventFields (loggers family_state 1)) = [''p'' \<mapsto> GInt 1]"
    by (simp add: family_facts[unfolded One_nat_def] range_fields_def)
next
  show "Parent (loggers family_state 2) = Some 1" "Parent (loggers family_state 3) = Some 1"
    by (rule family_facts)+
next
  have "\<exists>s1. mergeFields family_state 2 None = Some (Returned (Some 14), s1) \<and>
             maps s1 14 = [''p'' \<mapsto> GInt 1, ''x'' \<mapsto> GInt 1]"
    by (simp add: mergeFields.simps make_map_def family_facts[unfolded One_nat_def]
          after_parent_def merge_own_def copy_into_def range_fields_def)
  then show "\<exists>a s1. mergeFields family_state 2 None = Some (Returned (Some a), s1) \<and>
             maps s1 a = [''p'' \<mapsto> GInt 1, ''x'' \<mapsto> GInt 1]" by blast
next
  have "\<exists>s1. mergeFields family_state 3 None = Some (Returned (Some 14), s1) \<and>
             maps s1 14 = [''p'' \<mapsto> GInt 1, ''y'' \<mapsto> GInt 2]"
    by (simp add: mergeFields.simps make_map_def family_facts[unfolded One_nat_def]
          after_parent_def merge_own_def copy_into_def range_fields_def)
  then show "\<exists>a s1. mergeFields family_state 3 None = Some (Returned (Some a), s1) \<and>
             maps s1 a = [''p'' \<mapsto> GInt 1, ''y'' \<mapsto> GInt 2]" by blast
qed

theorem merged_fields_deep_union_witness:
  "run family_script init = Some family_state \<and> 2 < next_logger family_state \<and>
   ref_ok family_state (Some 8) \<and>
   (\<exists>ls. ancestor_chain (loggers family_state) 2 ls \<and>
      (\<exists>a s1. mergeFields family_state 2 (Some 8) = Some (Returned (Some a), s1) \<and>
               maps s1 a = deep_union family_state ls ++ range_fields family_state (Some 8)) \<and>
      (\<exists>out s'. Log quiet_env family_state 2 ''info'' ''m'' (Some 8) = Some (out, s') \<and>
         (out, stdout s') =
           (if \<not> isEnabled family_state 2 ''info'' then (Returned (), stdout family_state)
            else if panics_on_message (Serializer (loggers family_state 2))
              then (Panicked InterfaceConversion, stdout family_state)
            else (Returned (),
                  stdout family_state @ [encode_line quiet_env (entry_of quiet_env ''info'' ''m''
                      (deep_union family_state ls ++ range_fields family_state (Some 8)))]))))"
proof -
  have h: "run family_script init = Some family_state \<and> 2 < next_logger family_state \<and>
           ref_ok family_state (Some 8)"
    by (simp add: family_facts ref_ok_def)
  from merged_fields_deep_union[of family_script family_state 2 "Some 8" quiet_env "''info''" "''m''",
      THEN conjunct1, rule_format, OF h] h
  show ?thesis by (intro conjI) simp_all
qed

text \<open>
  C9. In a state reached by any program over the package, \<open>mergeFields\<close> on a node returns
  the call-site fields overlaid on the node's own event fields: the union along the
  ancestor chain is already what the node's event fields hold, so the walk adds nothing.
\<close>

theorem merge_equals_simple_overlay:
  "run cs init = Some s \<Longrightarrow> l < next_logger s \<Longrightarrow> ref_ok s flds \<Longrightarrow>
     \<exists>ls a s1. ancestor_chain (loggers s) l ls \<and>
        deep_union s ls = range_fields s (EventFields (loggers s l)) \<and>
        mergeFields s l flds = Some (Returned (Some a), s1) \<and>
        maps s1 a = simple_overlay s l flds"
proof -
  assume "run cs init = Some s" "l < next_logger s" "ref_ok s flds"
  from reachable_merge[OF this] show ?thesis
    unfolding simple_overlay_def by metis
qed

theorem merge_equals_simple_overlay_witness:
  "run family_script init = Some family_state \<and> 3 < next_logger family_state \<and>
   ref_ok family_state (Some 4) \<and>
   (\<exists>ls a s1. ancestor_chain (loggers family_state) 3 ls \<and>
        deep_union family_state ls = range_fields family_state (EventFields (loggers family_state 3)) \<and>
        mergeFields family_state 3 (Some 4) = Some (Returned (Some a), s1) \<and>
        maps s1 a = simple_overlay family_state 3 (Some 4))"
proof -
  have h: "run family_script init = Some family_state" "3 < next_logger family_state"
          "ref_ok family_state (Some 4)"
    by (simp_all add: family_facts ref_ok_def)
  from merge_equals_simple_overlay[OF h] h show ?thesis by (intro conjI) simp_all
qed

section \<open>Serializers at creation\<close>

text \<open>
  C6. In a state reached by any program over the package, deriving from a logger \<open>l\<close>
  returns a new logger whose parent is \<open>l\<close> and whose serializer is: none after \<open>Child\<close>,
  whatever serializer \<open>l\<close> has; the serializer of \<open>l\<close> after \<open>WithFields\<close>; the closure over
  the given table after \<open>WithSerializers\<close>, whatever serializer \<open>l\<close> has.
\<close>

theorem serializer_at_creation:
  "run cs init = Some s \<Longrightarrow> l < next_logger s \<Longrightarrow> ref_ok s flds \<Longrightarrow>
     (\<exists>s'. Child s l flds = Some (Returned (next_logger s), s') \<and>
           Parent (loggers s' (next_logger s)) = Some l \<and>
           Serializer (loggers s' (next_logger s)) = None) \<and>
     (\<exists>s'. WithFields s l flds = Some (Returned (next_logger s), s') \<and>
           Parent (loggers s' (next_logger s)) = Some l \<and>
           Serializer (loggers s' (next_logger s)) = Serializer (loggers s l)) \<and>
     (\<exists>s'. WithSerializers s l serializers = Some (Returned (next_logger s), s') \<and>
           Parent (loggers s' (next_logger s)) = Some l \<and>
           Serializer (loggers s' (next_logger s)) = Some (Composite serializers))"
proof -
  assume r: "run cs init = Some s" and l: "l < next_logger s" and f: "ref_ok s flds"
  have t: "tree_ok s" using run_init_ok[OF r] by (simp add: store_ok_def)
  from Child_result[OF t l f] obtain s1 ls1 where
    c: "Child s l flds = Some (Returned (next_logger s), s1)" and d1: "derived s l ls1 flds None s1"
    by blast
  from WithFields_result[OF t l f] obtain s2 ls2 where
    w: "WithFields s l flds = Some (Returned (next_logger s), s2)"
    and d2: "derived s l ls2 flds (Serializer (loggers s l)) s2"
    by blast
  from WithSerializers_result[OF t l, of serializers] obtain s3 ls3 where
    z: "WithSerializers s l serializers = Some (Returned (next_logger s), s3)"
    and d3: "derived s l ls3 None (Some (Composite serializers)) s3"
    by blast
  show ?thesis
    using c w z derived_new_logger(1,2)[OF d1 l] derived_new_logger(1,2)[OF d2 l]
      derived_new_logger(1,2)[OF d3 l]
    by simp
qed

theorem serializer_at_creation_witness:
  "run masked_script init = Some masked_state \<and> 1 < next_logger masked_state \<and>
   ref_ok masked_state None \<and>
   Serializer (loggers masked_state 1) = Some (Composite [(''secret'', redact)]) \<and>
   (\<exists>s'. Child masked_state 1 None = Some (Returned (next_logger masked_state), s') \<and>
         Parent (loggers s' (next_logger masked_state)) = Some 1 \<and>
         Serializer (loggers s' (next_logger masked_state)) = None) \<and>
   (\<exists>s'. WithFields masked_state 1 None = Some (Returned (next_logger masked_state), s') \<and>
         Parent (loggers s' (next_logger masked_state)) = Some 1 \<and>
         Serializer (loggers s' (next_logger masked_state)) = Serializer (loggers masked_state 1)) \<and>
   (\<exists>s'. WithSerializers masked_state 1 [] = Some (Returned (next_logger masked_state), s') \<and>
         Parent (loggers s' (next_logger masked_state)) = Some 1 \<and>
         Serializer (loggers s' (next_logger masked_state)) = Some (Composite []))"
proof -
  have h: "run masked_script init = Some masked_state" "1 < next_logger masked_state"
          "ref_ok masked_state None"
    by (simp_all add: masked_facts ref_ok_def)
  from serializer_at_creation[OF h, of "[]"] h masked_facts(7)
  show ?thesis by (intro conjI) simp_all
qed

section \<open>Event fields are frozen\<close>

text \<open>
  C8. From a state reached by any program over the package, whatever calls follow
  (roots, derivations, calls of \<open>Log\<close> at any level, on loggers with or without a
  serializer), every logger that exists keeps its event fields: the same map, with the same
  contents. And the closure of \<open>WithSerializers\<close>, applied as \<open>Log\<close> applies it to the map
  that \<open>mergeFields\<close> has just returned, leaves every logger's event fields as they are.
\<close>

theorem event_fields_never_change:
  "run cs init = Some s \<Longrightarrow> k < next_logger s \<Longrightarrow>
     (run cs' s = Some s' \<longrightarrow>
        EventFields (loggers s' k) = EventFields (loggers s k) \<and>
        range_fields s' (EventFields (loggers s' k)) = range_fields s (EventFields (loggers s k))) \<and>
     (l < next_logger s \<and> ref_ok s flds \<longrightarrow>
        (\<exists>a s1. mergeFields s l flds = Some (Returned (Some a), s1) \<and>
           (\<forall>r s2. call_serializer (Composite serializers) (DMap (Some a)) s1 = (r, s2) \<longrightarrow>
              EventFields (loggers s2 k) = EventFields (loggers s k) \<and>
              range_fields s2 (EventFields (loggers s2 k)) =
                range_fields s (EventFields (loggers s k)))))"
proof -
  assume r: "run cs init = Some s" and k: "k < next_logger s"
  have ok: "store_ok s" using r by (rule run_init_ok)
  then have t: "tree_ok s" by (simp add: store_ok_def)
  from t k obtain b where b: "b < next_map s" "EventFields (loggers s k) = Some b"
    by (auto simp: tree_ok_def)
  show ?thesis
  proof (intro conjI impI)
    assume "run cs' s = Some s'"
    from run_ok_persists[OF ok this] have p: "persists s s'" by simp
    then show "EventFields (loggers s' k) = EventFields (loggers s k)"
      using k by (simp add: persists_def)
    show "range_fields s' (EventFields (loggers s' k)) = range_fields s (EventFields (loggers s k))"
      using p t k by (rule persists_range_fields)
  next
    assume "l < next_logger s \<and> ref_ok s flds"
    then have l: "l < next_logger s" and f: "ref_ok s flds" by simp_all
    from reachable_merge[OF r l f] obtain a s1 where
      m: "mergeFields s l flds = Some (Returned (Some a), s1)" and g: "grows s s1"
      and a: "next_map s \<le> a" by blast
    have g1: "loggers s1 = loggers s" "maps s1 b = maps s b"
      using g b(1) by (simp_all add: grows_def)
    have ba: "b \<noteq> a" using a b(1) by simp
    have "\<forall>r s2. call_serializer (Composite serializers) (DMap (Some a)) s1 = (r, s2) \<longrightarrow>
              EventFields (loggers s2 k) = EventFields (loggers s k) \<and>
              range_fields s2 (EventFields (loggers s2 k)) =
                range_fields s (EventFields (loggers s k))"
    proof (intro allI impI)
      fix r s2
      assume c: "call_serializer (Composite serializers) (DMap (Some a)) s1 = (r, s2)"
      have fr: "loggers s2 = loggers s1" "maps s2 b = maps s1 b"
        using call_serializer_frame[OF c] ba by auto
      show "EventFields (loggers s2 k) = EventFields (loggers s k) \<and>
              range_fields s2 (EventFields (loggers s2 k)) =
                range_fields s (EventFields (loggers s k))"
        using fr g1 b by (simp add: range_fields_def)
    qed
    with m show "\<exists>a s1. mergeFields s l flds = Some (Returned (Some a), s1) \<and>
           (\<forall>r s2. call_serializer (Composite serializers) (DMap (Some a)) s1 = (r, s2) \<longrightarrow>
              EventFields (loggers s2 k) = EventFields (loggers s k) \<and>
              range_fields s2 (EventFields (loggers s2 k)) =
                range_fields s (EventFields (loggers s k)))"
      by blast
  qed
qed

theorem event_fields_never_change_witness:
  "run masked_script init = Some masked_state \<and> 1 < next_logger masked_state \<and>
   run later_script masked_state = Some later_state \<and> ref_ok masked_state None \<and>
   EventFields (loggers later_state 1) = EventFields (loggers masked_state 1) \<and>
   range_fields later_state (EventFields (loggers later_state 1)) =
     range_fields masked_state (EventFields (loggers masked_state 1)) \<and>
   (\<exists>a s1. mergeFields masked_state 1 None = Some (Returned (Some a), s1) \<and>
      (\<forall>r s2. call_serializer (Composite [(''secret'', redact)]) (DMap (Some a)) s1 = (r, s2) \<longrightarrow>
         EventFields (loggers s2 1) = EventFields (loggers masked_state 1) \<and>
         range_fields s2 (EventFields (loggers s2 1)) =
           range_fields masked_state (EventFields (loggers masked_state 1))))"
proof -
  have h: "run masked_script init = Some masked_state" "1 < next_logger masked_state"
    by (simp_all add: masked_facts)
  have h2: "run later_script masked_state = Some later_state"
    by (rule later_facts)
  have h3: "ref_ok masked_state None" by (simp add: ref_ok_def)
  note th = event_fields_never_change[OF h, of later_script later_state 1 None
      "[(''secret'', redact)]"]
  from th h2 have a: "EventFields (loggers later_state 1) = EventFields (loggers masked_state 1) \<and>
      range_fields later_state (EventFields (loggers later_state 1)) =
        range_fields masked_state (EventFields (loggers masked_state 1))" by blast
  from th h(2) h3 have b: "\<exists>a s1. mergeFields masked_state 1 None = Some (Returned (Some a), s1) \<and>
      (\<forall>r s2. call_serializer (Composite [(''secret'', redact)]) (DMap (Some a)) s1 = (r, s2) \<longrightarrow>
         EventFields (loggers s2 1) = EventFields (loggers masked_state 1) \<and>
         range_fields s2 (EventFields (loggers s2 1)) =
           range_fields masked_state (EventFields (loggers masked_state 1)))" by blast
  show ?thesis using h h2 h3 a b by blast
qed

section \<open>Nil field maps\<close>

text \<open>
  C10. In a state reached by any program over the package: \<open>Child\<close> with a nil map returns a
  new logger whose event fields hold exactly what \<open>mergeFields\<close> with a nil map returns for
  the caller, and so does \<open>WithSerializers\<close>; every entry that a call of \<open>Log\<close> writes has a
  map of fields. And in any state whatever, when \<open>mergeFields\<close> returns, it returns a map
  that is not nil.
\<close>

theorem nil_fields_are_safe:
  "(run cs init = Some s \<and> l < next_logger s \<and> ref_ok s flds \<longrightarrow>
      (\<exists>m s1. mergeFields s l None = Some (Returned (Some m), s1) \<and>
         (\<exists>s' a. Child s l None = Some (Returned (next_logger s), s') \<and>
                 EventFields (loggers s' (next_logger s)) = Some a \<and> maps s' a = maps s1 m) \<and>
         (\<exists>s' a. WithSerializers s l serializers = Some (Returned (next_logger s), s') \<and>
                 EventFields (loggers s' (next_logger s)) = Some a \<and> maps s' a = maps s1 m)) \<and>
      (\<exists>a s1. mergeFields s l flds = Some (Returned (Some a), s1)) \<and>
      (\<exists>out s' new. Log e s l level message flds = Some (out, s') \<and>
            stdout s' = stdout s @ new \<and> (\<forall>w. Encoded w \<in> set new \<longrightarrow> Fields w \<noteq> None))) \<and>
   (mergeFields t k flds' = Some (r, t') \<longrightarrow> (\<exists>a. r = Returned (Some a)))"
proof (intro conjI impI)
  assume "mergeFields t k flds' = Some (r, t')"
  from mergeFields_never_nil[OF this] show "\<exists>a. r = Returned (Some a)" by simp
next
  assume h: "run cs init = Some s \<and> l < next_logger s \<and> ref_ok s flds"
  then have r: "run cs init = Some s" and l: "l < next_logger s" and f: "ref_ok s flds"
    by simp_all
  have t: "tree_ok s" using run_init_ok[OF r] by (simp add: store_ok_def)
  have n: "ref_ok s None" by (simp add: ref_ok_def)
  from reachable_merge[OF r l n] obtain ls m s1 where
    ch: "ancestor_chain (loggers s) l ls"
    and m: "mergeFields s l None = Some (Returned (Some m), s1)"
    and v: "maps s1 m = deep_union s ls ++ range_fields s None" by blast
  from Child_result[OF t l n] obtain s2 ls2 where
    c: "Child s l None = Some (Returned (next_logger s), s2)"
    and ch2: "ancestor_chain (loggers s) l ls2" and d2: "derived s l ls2 None None s2" by blast
  have e2: "ls2 = ls" using ch2 ch by (rule ancestor_chain_unique)
  from derived_new_logger(4)[OF d2 l] obtain a2 where
    a2: "EventFields (loggers s2 (next_logger s)) = Some a2" "maps s2 a2 = maps s1 m"
    using v e2 by auto
  from WithSerializers_result[OF t l, of serializers] obtain s3 ls3 where
    w: "WithSerializers s l serializers = Some (Returned (next_logger s), s3)"
    and ch3: "ancestor_chain (loggers s) l ls3"
    and d3: "derived s l ls3 None (Some (Composite serializers)) s3" by blast
  have e3: "ls3 = ls" using ch3 ch by (rule ancestor_chain_unique)
  from derived_new_logger(4)[OF d3 l] obtain a3 where
    a3: "EventFields (loggers s3 (next_logger s)) = Some a3" "maps s3 a3 = maps s1 m"
    using v e3 by auto
  show "\<exists>m s1. mergeFields s l None = Some (Returned (Some m), s1) \<and>
         (\<exists>s' a. Child s l None = Some (Returned (next_logger s), s') \<and>
                 EventFields (loggers s' (next_logger s)) = Some a \<and> maps s' a = maps s1 m) \<and>
         (\<exists>s' a. WithSerializers s l serializers = Some (Returned (next_logger s), s') \<and>
                 EventFields (loggers s' (next_logger s)) = Some a \<and> maps s' a = maps s1 m)"
    using m c a2 w a3 by blast
  from reachable_merge[OF r l f]
  show "\<exists>a s1. mergeFields s l flds = Some (Returned (Some a), s1)" by blast
  from Log_result[OF t l f ch, of e level message] obtain out s' where
    lg: "Log e s l level message flds = Some (out, s')"
    and o: "(out, stdout s') =
       (if \<not> isEnabled s l level then (Returned (), stdout s)
        else if panics_on_message (Serializer (loggers s l))
          then (Panicked InterfaceConversion, stdout s)
        else (Returned (),
              stdout s @ [encode_line e (entry_of e level message
                            (deep_union s ls ++ range_fields s flds))]))"
    by blast
  let ?line = "encode_line e (entry_of e level message (deep_union s ls ++ range_fields s flds))"
  from o have "stdout s' = stdout s @ [] \<or> stdout s' = stdout s @ [?line]"
    by (auto split: if_splits)
  then obtain new where nw: "stdout s' = stdout s @ new" "set new \<subseteq> {?line}" by auto
  have "\<forall>w. Encoded w \<in> set new \<longrightarrow> Fields w \<noteq> None"
  proof (intro allI impI)
    fix w assume "Encoded w \<in> set new"
    then have "?line = Encoded w" using nw(2) by auto
    then show "Fields w \<noteq> None" by (rule encode_line_fields)
  qed
  with lg nw(1)
  show "\<exists>out s' new. Log e s l level message flds = Some (out, s') \<and>
            stdout s' = stdout s @ new \<and> (\<forall>w. Encoded w \<in> set new \<longrightarrow> Fields w \<noteq> None)"
    by blast
qed

theorem nil_fields_are_safe_witness:
  "run family_script init = Some family_state \<and> 1 < next_logger family_state \<and>
   ref_ok family_state (Some 4) \<and>
   (\<exists>m s1. mergeFields family_state 1 None = Some (Returned (Some m), s1) \<and>
      (\<exists>s' a. Child family_state 1 None = Some (Returned (next_logger family_state), s') \<and>
              EventFields (loggers s' (next_logger family_state)) = Some a \<and>
              maps s' a = maps s1 m) \<and>
      (\<exists>s' a. WithSerializers family_state 1 [(''p'', redact)]
                 = Some (Returned (next_logger family_state), s') \<and>
              EventFields (loggers s' (next_logger family_state)) = Some a \<and>
              maps s' a = maps s1 m)) \<and>
   (\<exists>a s1. mergeFields family_state 1 (Some 4) = Some (Returned (Some a), s1)) \<and>
   (\<exists>out s' new. Log quiet_env family_state 1 ''info'' ''m'' (Some 4) = Some (out, s') \<and>
         stdout s' = stdout family_state @ new \<and>
         (\<forall>w. Encoded w \<in> set new \<longrightarrow> Fields w \<noteq> None)) \<and>
   (\<exists>r t'. mergeFields family_state 2 None = Some (r, t') \<and> (\<exists>a. r = Returned (Some a)))"
proof -
  have h: "run family_script init = Some family_state \<and> 1 < next_logger family_state \<and>
           ref_ok family_state (Some 4)"
    by (simp add: family_facts ref_ok_def)
  have "\<exists>s1. mergeFields family_state 2 None = Some (Returned (Some 14), s1)"
    by (simp add: mergeFields.simps make_map_def family_facts[unfolded One_nat_def]
          after_parent_def merge_own_def copy_into_def range_fields_def)
  then obtain s1 where m: "mergeFields family_state 2 None = Some (Returned (Some 14), s1)"
    by blast
  note th = nil_fields_are_safe[of family_script family_state 1 "Some 4" "[(''p'', redact)]"
      quiet_env "''info''" "''m''" family_state 2 None "Returned (Some 14)" s1]
  from th h have a: "(\<exists>m s1. mergeFields family_state 1 None = Some (Returned (Some m), s1) \<and>
      (\<exists>s' a. Child family_state 1 None = Some (Returned (next_logger family_state), s') \<and>
              EventFields (loggers s' (next_logger family_state)) = Some a \<and>
              maps s' a = maps s1 m) \<and>
      (\<exists>s' a. WithSerializers family_state 1 [(''p'', redact)]
                 = Some (Returned (next_logger family_state), s') \<and>
              EventFields (loggers s' (next_logger family_state)) = Some a \<and>
              maps s' a = maps s1 m)) \<and>
   (\<exists>a s1. mergeFields family_state 1 (Some 4) = Some (Returned (Some a), s1)) \<and>
   (\<exists>out s' new. Log quiet_env family_state 1 ''info'' ''m'' (Some 4) = Some (out, s') \<and>
         stdout s' = stdout family_state @ new \<and>
         (\<forall>w. Encoded w \<in> set new \<longrightarrow> Fields w \<noteq> None))"
    by (rule conjunct1[THEN mp])
  from th m have b: "\<exists>a. Returned (Some (14::nat)) = Returned (Some a)"
    by (rule conjunct2[THEN mp])
  from m b have c: "\<exists>r t'. mergeFields family_state 2 None = Some (r, t') \<and>
      (\<exists>a. r = Returned (Some a))" by blast
  show ?thesis using h a c by blast
qed

section \<open>Logging through a serializer built by WithSerializers\<close>

text \<open>
  Applied to the field map alone, the closure of \<open>WithSerializers\<close> does replace the value
  under \<open>secret\<close> and leaves the other key as it is.
\<close>

lemma composite_on_fields:
  "\<exists>s'. call_serializer (Composite [(''secret'', f)]) (DMap (Some 3)) (secret_state f)
           = (Returned (DMap (Some 3)), s') \<and>
         maps s' 3 ''secret'' = Some (f (GStr ''abc'')) \<and>
         maps s' 3 ''other'' = Some (GStr ''x'')"
  by (simp add: call_serializer_def range_fields_def secret_facts)

text \<open>
  C3, at the input of the claim. The logger is derived with \<open>WithSerializers\<close> over
  \<open>secret\<close>, the level \<open>info\<close> is enabled and the call-site fields are secret=abc, other=x.
  \<open>Log\<close> calls the closure on the message first; the message is a string, the closure's
  assertion that its argument is a map panics, and no entry reaches standard output.
\<close>

theorem log_after_with_serializers_panics:
  "isEnabled (secret_state f) 1 ''info'' \<and>
   Serializer (loggers (secret_state f) 1) = Some (Composite [(''secret'', f)]) \<and>
   range_fields (secret_state f) (Some 3) = [''secret'' \<mapsto> GStr ''abc'', ''other'' \<mapsto> GStr ''x''] \<and>
   (\<exists>s'. Log quiet_env (secret_state f) 1 ''info'' ''login'' (Some 3)
            = Some (Panicked InterfaceConversion, s') \<and>
         stdout s' = [])"
  by (simp add: eval_defs quiet_env_def secret_facts[unfolded One_nat_def])

text \<open>
  C2, at a failing input. On the logger of \<open>masked_state\<close> derived with \<open>WithSerializers\<close>,
  configured at \<open>info\<close>, a call at \<open>error\<close> has the higher severity and is enabled; it
  panics in the serializer and writes nothing.
\<close>

theorem enabled_call_emits_nothing:
  "Level (loggers masked_state 1) = ''info'' \<and>
   index0 levels ''error'' \<ge> index0 levels (Level (loggers masked_state 1)) \<and>
   isEnabled masked_state 1 ''error'' \<and>
   (\<exists>s'. Log quiet_env masked_state 1 ''error'' ''boom'' None
            = Some (Panicked InterfaceConversion, s') \<and>
         stdout s' = stdout masked_state)"
  unfolding masked_state_def masked_script_def
  by (simp add: eval_defs quiet_env_def)

text \<open>
  C5, at a failing input. When the encoder returns an error, \<open>Log\<close> prints the diagnostic
  line and returns. But a logger derived with \<open>WithFields\<close> from a logger that has a
  serializer carries that serializer, and a call of \<open>Log\<close> on it at an enabled level does
  not return: it panics.
\<close>

theorem log_raises_to_caller:
  "(\<exists>s'. Log failing_env root_state 0 ''info'' ''started'' None = Some (Returned (), s') \<and>
         stdout s' = [Printed ''Error encoding log entry: write failed'']) \<and>
   Serializer (loggers later_state 2) = Some (Composite [(''secret'', redact)]) \<and>
   isEnabled later_state 2 ''fatal'' \<and>
   (\<exists>s'. Log quiet_env later_state 2 ''fatal'' ''down'' None
            = Some (Panicked InterfaceConversion, s'))"
  unfolding later_state_def later_script_def masked_script_def root_state_def
  by (simp add: eval_defs quiet_env_def failing_env_def)

end
